theory Spec2Isabelle
  imports Main "HOL-Library.Word"
begin

section \<open>Contextual bit-vector bounds simplification (bv_bounds_tactic.cpp)\<close>

text \<open>
  A shallow embedding of \<^verbatim>\<open>src/tactic/bv/bv_bounds_tactic.cpp\<close>: the \<^verbatim>\<open>interval\<close>
  value type with its operations, the bound extractor \<^verbatim>\<open>is_bound\<close>, and the stateful
  simplifier (\<^verbatim>\<open>assert_expr\<close>, \<^verbatim>\<open>simplify\<close>, \<^verbatim>\<open>may_simplify\<close>, \<^verbatim>\<open>pop\<close>).
  \<^verbatim>\<open>uint64_t\<close> is \<open>64 word\<close>, so \<open>h + 1\<close> and \<open>l - 1\<close> wrap as in the source;
  \<^verbatim>\<open>unsigned\<close> bit widths and scope counts are \<open>nat\<close>.
\<close>

subsection \<open>Machine integers\<close>

type_synonym uint64 = "64 word"

text \<open>\<^verbatim>\<open>uMaxInt(sz) = ULLONG_MAX >> (64u - sz)\<close>, asserted for \<^verbatim>\<open>sz <= 64\<close>.\<close>

definition uMaxInt :: "nat \<Rightarrow> uint64" where
  "uMaxInt w = drop_bit (64 - w) (- 1)"

subsection \<open>Failures\<close>

text \<open>
  What can go wrong besides a Boolean result: a failed \<^verbatim>\<open>VERIFY\<close>, a failed
  \<^verbatim>\<open>SASSERT\<close>, \<^verbatim>\<open>to_app\<close> on an expression that is not an application, the
  bit-vector size of a term that has no bit-vector sort, popping more scopes than there
  are, and restoring a default-constructed interval.
\<close>

datatype error =
  VerifyFailed | AssertionFailed | NotAnApp | NotBvSort | OverPop | Uninitialised

subsection \<open>The interval value type\<close>

text \<open>
  \<^verbatim>\<open>struct interval { uint64_t l, h; unsigned sz; bool tight; }\<close>.
  The source comments the meaning: \<^verbatim>\<open>l < h: [l, h]\<close> and
  \<^verbatim>\<open>l > h: [0, h] U [l, UMAX_INT]\<close>.
\<close>

record interval =
  l :: uint64
  h :: uint64
  sz :: nat
  tight :: bool

text \<open>
  The four-argument constructor (\<^verbatim>\<open>tight\<close> defaults to \<^verbatim>\<open>false\<close> at the call sites
  that omit it): a wrapped pair with \<^verbatim>\<open>l == h + 1\<close> is canonicalised to the full set.
\<close>

definition mk_interval :: "uint64 \<Rightarrow> uint64 \<Rightarrow> nat \<Rightarrow> bool \<Rightarrow> interval" where
  "mk_interval lo hi w t =
     (if lo > hi \<and> lo = hi + 1
      then \<lparr>l = 0, h = uMaxInt w, sz = w, tight = t\<rparr>
      else \<lparr>l = lo, h = hi, sz = w, tight = t\<rparr>)"

text \<open>
  The derived predicates. \<^verbatim>\<open>is_singleton\<close> and \<^verbatim>\<open>implies\<close> carry the suffix
  \<open>_interval\<close> here, and the type \<^verbatim>\<open>sort\<close> below is \<open>expr_sort\<close>, because HOL has
  constants and a type class notion under the source's names.
\<close>

definition is_wrapped :: "interval \<Rightarrow> bool" where
  "is_wrapped a = (l a > h a)"

definition is_full :: "interval \<Rightarrow> bool" where
  "is_full a = (l a = 0 \<and> h a = uMaxInt (sz a))"

definition is_singleton_interval :: "interval \<Rightarrow> bool" where
  "is_singleton_interval a = (l a = h a)"

definition invariant :: "interval \<Rightarrow> bool" where
  "invariant a =
     (l a \<le> uMaxInt (sz a) \<and> h a \<le> uMaxInt (sz a) \<and>
      (\<not> is_wrapped a \<or> l a \<noteq> h a + 1))"

text \<open>\<^verbatim>\<open>operator==\<close> compares the endpoints and the tight flag, not the width.\<close>

definition interval_eq :: "interval \<Rightarrow> interval \<Rightarrow> bool" where
  "interval_eq a c = (l a = l c \<and> h a = h c \<and> tight a = tight c)"

definition implies_interval :: "interval \<Rightarrow> interval \<Rightarrow> bool" where
  "implies_interval a c =
     (if is_full c then True
      else if is_full a then False
      else if is_wrapped a then is_wrapped c \<and> h a \<le> h c \<and> l a \<ge> l c
      else if is_wrapped c then h a \<le> h c \<or> l a \<ge> l c
      else l a \<ge> l c \<and> h a \<le> h c)"

text \<open>
  \<^verbatim>\<open>intersect\<close> returns \<^verbatim>\<open>false\<close> (here \<open>None\<close>) when it finds the intersection
  unsatisfiable and leaves \<^verbatim>\<open>result\<close> untouched; otherwise \<open>Some result\<close>.
  The wrapped-by-non-wrapped case calls itself with the operands swapped.
\<close>

function intersect :: "interval \<Rightarrow> interval \<Rightarrow> interval option" where
  "intersect a c =
     (if is_full a \<or> interval_eq a c then Some c
      else if is_full c then Some a
      else if is_wrapped a then
        (if is_wrapped c then
           (if h a \<ge> l c then Some c
            else if h c \<ge> l a then Some a
            else Some (mk_interval (max (l a) (l c)) (min (h a) (h c)) (sz a) False))
         else intersect c a)
      else if is_wrapped c then
        (if h a < l c \<and> l a > h c then None
         else if h a \<ge> l c \<and> l a \<le> h c then Some c
         else if h a \<ge> l c then Some (mk_interval (l c) (h a) (sz a) False)
         else Some (mk_interval (l a) (min (h a) (h c)) (sz a) False))
      else
        (if l a > h c \<or> h a < l c then None
         else Some (mk_interval (max (l a) (l c)) (min (h a) (h c)) (sz a)
                      (tight a \<and> tight c))))"
  by pat_completeness auto
termination
  by (relation "measure (\<lambda>(a, c). if is_wrapped a \<and> \<not> is_wrapped c then 1 else 0)") auto

declare intersect.simps [simp del]

text \<open>
  \<^verbatim>\<open>negate\<close> returns \<^verbatim>\<open>false\<close> (here \<open>None\<close>) when the negation is empty. In the
  non-tight branch the source writes \<^verbatim>\<open>interval(0, uMaxInt(sz), true)\<close>: three
  arguments, so the literal \<^verbatim>\<open>true\<close> is the \<^verbatim>\<open>unsigned sz\<close> parameter (value 1) and
  \<^verbatim>\<open>tight\<close> takes its default \<^verbatim>\<open>false\<close>.
\<close>

definition negate :: "interval \<Rightarrow> interval option" where
  "negate a =
     (if \<not> tight a then Some (mk_interval 0 (uMaxInt (sz a)) 1 False)
      else if is_full a then None
      else if l a = 0 then Some (mk_interval (h a + 1) (uMaxInt (sz a)) (sz a) False)
      else if uMaxInt (sz a) = h a then Some (mk_interval 0 (l a - 1) (sz a) False)
      else Some (mk_interval (h a + 1) (l a - 1) (sz a) False))"

text \<open>
  The constructor ends with \<^verbatim>\<open>SASSERT(invariant())\<close> (line 46). The \<^verbatim>\<open>SASSERT\<close> macro
  is defined outside this file: the parameter \<open>assertions\<close> says whether it is
  compiled in, and a failed assertion then stops the program (\<open>Inl AssertionFailed\<close>).
  Every interval that \<^verbatim>\<open>negate\<close> returns was built by the constructor inside that
  call, so \<open>negate_asserting\<close> is \<^verbatim>\<open>negate\<close> with the assertion of its constructor
  call, and \<open>negate\<close> above is \<^verbatim>\<open>negate\<close> with assertions compiled out. In the tight
  branches the assertion holds whenever the operand satisfies the invariant (lemma
  \<open>negate_asserting_tight\<close> below), which is how \<^verbatim>\<open>assert_expr\<close> and \<^verbatim>\<open>simplify\<close>
  call it; in the non-tight branch it fails for every width above 1.
\<close>

definition negate_asserting :: "bool \<Rightarrow> interval \<Rightarrow> error + interval option" where
  "negate_asserting assertions a =
     (case negate a of
        None \<Rightarrow> Inr None
      | Some r \<Rightarrow> if assertions \<and> \<not> invariant r then Inl AssertionFailed else Inr (Some r))"

text \<open>
  The set of values an interval denotes, as the source's comment on the struct gives it,
  among the values of its width.
\<close>

definition contains :: "interval \<Rightarrow> uint64 \<Rightarrow> bool" where
  "contains a v =
     (v \<le> uMaxInt (sz a) \<and>
      (if l a \<le> h a then l a \<le> v \<and> v \<le> h a else v \<le> h a \<or> l a \<le> v))"

text \<open>
  Two situations of a pair of operands of \<^verbatim>\<open>intersect\<close>, in the terms of the case
  split of the source. In the first the common values have two gaps, so that no
  interval denotes them: two wrapped operands of which one's lower piece reaches the
  other's upper piece (lines 96 and 98), or a non-wrapped operand that reaches both
  pieces of a wrapped one (line 112). In the second a non-wrapped operand starts above
  the lower end \<^verbatim>\<open>b.l\<close> of the upper piece of a wrapped one, and so lies inside that
  piece; this is where line 115 builds \<^verbatim>\<open>interval(b.l, h, sz)\<close>.
\<close>

definition two_gaps :: "interval \<Rightarrow> interval \<Rightarrow> bool" where
  "two_gaps a c =
     (\<not> is_full a \<and> \<not> is_full c \<and>
      (if is_wrapped a
       then (if is_wrapped c then l c \<le> h a \<or> l a \<le> h c else l a \<le> h c \<and> l c \<le> h a)
       else is_wrapped c \<and> l c \<le> h a \<and> l a \<le> h c))"

definition inside_upper_piece :: "interval \<Rightarrow> interval \<Rightarrow> bool" where
  "inside_upper_piece a c =
     (if is_wrapped a then \<not> is_wrapped c \<and> l a < l c else is_wrapped c \<and> l c < l a)"

subsection \<open>Terms\<close>

text \<open>
  The expression graph (\<^verbatim>\<open>expr\<close>, \<^verbatim>\<open>app\<close>, \<^verbatim>\<open>ast_manager\<close>, \<^verbatim>\<open>bv_util\<close>) is declared
  outside this file. The simplifier only tests a term for being a bit-vector numeral,
  an unsigned or signed less-or-equal, an equality or a negation, reads its arguments
  and its sort, and builds numerals, \<^verbatim>\<open>true\<close>, \<^verbatim>\<open>false\<close>, equalities and negations.
  Terms are given here with exactly these shapes; every other application (an
  uninterpreted constant is one with no arguments) is \<open>App\<close> with its result sort, and
  an expression that is not an application (a bound variable or a quantifier) is
  \<open>NonApp\<close>. Pointer identity of hash-consed terms is structural equality.
\<close>

datatype expr_sort = BoolSort | BvSort nat

datatype expr =
    BvNumeral nat nat
  | BvUle expr expr
  | BvSle expr expr
  | Eq expr expr
  | NotE expr
  | TrueE
  | FalseE
  | App string expr_sort "expr list"
  | NonApp nat expr_sort

fun get_sort :: "expr \<Rightarrow> expr_sort" where
  "get_sort (BvNumeral r w) = BvSort w"
| "get_sort (App f s ts) = s"
| "get_sort (NonApp n s) = s"
| "get_sort t = BoolSort"

definition is_bool :: "expr \<Rightarrow> bool" where
  "is_bool t = (get_sort t = BoolSort)"

text \<open>\<^verbatim>\<open>bv_util::get_bv_size\<close> is only defined on terms of bit-vector sort.\<close>

definition get_bv_size :: "expr \<Rightarrow> nat option" where
  "get_bv_size t = (case get_sort t of BvSort w \<Rightarrow> Some w | BoolSort \<Rightarrow> None)"

fun is_numeral :: "expr \<Rightarrow> bool" where
  "is_numeral (BvNumeral r w) = True"
| "is_numeral t = False"

text \<open>\<^verbatim>\<open>mk_numeral\<close> builds the numeral of the value reduced to the width.\<close>

definition mk_numeral :: "uint64 \<Rightarrow> nat \<Rightarrow> expr" where
  "mk_numeral u w = BvNumeral (unat u mod 2 ^ w) w"

text \<open>
  Terms as the term manager builds them: operands of a comparison have one bit-vector
  sort, an equality relates two terms of one sort, a negation has a Boolean operand,
  and a numeral of width \<open>w > 0\<close> has a value below \<open>2 ^ w\<close>.
\<close>

fun well_sorted :: "expr \<Rightarrow> bool" where
  "well_sorted (BvNumeral r w) = (0 < w \<and> r < 2 ^ w)"
| "well_sorted (BvUle s t) =
     (well_sorted s \<and> well_sorted t \<and> get_sort s = get_sort t \<and> get_sort s \<noteq> BoolSort)"
| "well_sorted (BvSle s t) =
     (well_sorted s \<and> well_sorted t \<and> get_sort s = get_sort t \<and> get_sort s \<noteq> BoolSort)"
| "well_sorted (Eq s t) = (well_sorted s \<and> well_sorted t \<and> get_sort s = get_sort t)"
| "well_sorted (NotE t) = (well_sorted t \<and> get_sort t = BoolSort)"
| "well_sorted TrueE = True"
| "well_sorted FalseE = True"
| "well_sorted (App f s ts) = list_all well_sorted ts"
| "well_sorted (NonApp n s) = True"

subsection \<open>The bound extractor\<close>

text \<open>\<^verbatim>\<open>is_number\<close>: a bit-vector numeral of at most 64 bits, with its value and width.\<close>

fun is_number :: "expr \<Rightarrow> (uint64 \<times> nat) option" where
  "is_number (BvNumeral r w) = (if w \<le> 64 then Some (of_nat r, w) else None)"
| "is_number t = None"

text \<open>
  \<^verbatim>\<open>is_bound(e, v, b)\<close>: \<open>Some (v, b)\<close> where the source returns \<^verbatim>\<open>true\<close>. The left
  operand is tried first; a numeral on both sides gives no bound.
\<close>

fun is_bound :: "expr \<Rightarrow> (expr \<times> interval) option" where
  "is_bound (BvUle lhs rhs) =
     (case is_number lhs of
        Some (n, w) \<Rightarrow>
          if is_numeral rhs then None else Some (rhs, mk_interval n (uMaxInt w) w True)
      | None \<Rightarrow>
          (case is_number rhs of
             Some (n, w) \<Rightarrow> Some (lhs, mk_interval 0 n w True)
           | None \<Rightarrow> None))"
| "is_bound (BvSle lhs rhs) =
     (case is_number lhs of
        Some (n, w) \<Rightarrow>
          if is_numeral rhs then None
          else Some (rhs, mk_interval n (push_bit (w - 1) 1 - 1) w True)
      | None \<Rightarrow>
          (case is_number rhs of
             Some (n, w) \<Rightarrow> Some (lhs, mk_interval (push_bit (w - 1) 1) n w True)
           | None \<Rightarrow> None))"
| "is_bound (Eq lhs rhs) =
     (case is_number lhs of
        Some (n, w) \<Rightarrow>
          if is_numeral rhs then None else Some (rhs, mk_interval n n w True)
      | None \<Rightarrow>
          (case is_number rhs of
             Some (n, w) \<Rightarrow> Some (lhs, mk_interval n n w True)
           | None \<Rightarrow> None))"
| "is_bound t = None"

subsection \<open>The expression analysis\<close>

text \<open>
  \<^verbatim>\<open>get_expr_vars\<close> and \<^verbatim>\<open>expr_has_bounds\<close> memoise their results per term in
  \<^verbatim>\<open>m_expr_vars\<close> and \<^verbatim>\<open>m_bound_exprs\<close>; the tables only ever hold what the function
  computes for the key, so the functions are given without them.
  \<^verbatim>\<open>get_expr_vars(t)\<close> is the set of the non-numeral subterms of \<open>t\<close>, \<open>t\<close> included.
\<close>

fun get_expr_vars :: "expr \<Rightarrow> expr set" where
  "get_expr_vars (BvNumeral r w) = {}"
| "get_expr_vars (BvUle s t) = insert (BvUle s t) (get_expr_vars s \<union> get_expr_vars t)"
| "get_expr_vars (BvSle s t) = insert (BvSle s t) (get_expr_vars s \<union> get_expr_vars t)"
| "get_expr_vars (Eq s t) = insert (Eq s t) (get_expr_vars s \<union> get_expr_vars t)"
| "get_expr_vars (NotE t) = insert (NotE t) (get_expr_vars t)"
| "get_expr_vars TrueE = {TrueE}"
| "get_expr_vars FalseE = {FalseE}"
| "get_expr_vars (App f s ts) = insert (App f s ts) (\<Union> (set (map get_expr_vars ts)))"
| "get_expr_vars (NonApp n s) = {NonApp n s}"

text \<open>
  \<^verbatim>\<open>expr_has_bounds\<close> casts its argument with \<^verbatim>\<open>to_app\<close> without a test. The loop over
  the arguments stops at the first one that has bounds.
\<close>

fun expr_has_bounds :: "expr \<Rightarrow> error + bool"
  and args_have_bounds :: "expr list \<Rightarrow> error + bool" where
  "expr_has_bounds (NonApp n s) = Inl NotAnApp"
| "expr_has_bounds (BvNumeral r w) = Inr False"
| "expr_has_bounds (BvUle s t) =
     (if is_numeral s \<or> is_numeral t then Inr True
      else case expr_has_bounds s of Inl x \<Rightarrow> Inl x
           | Inr hb \<Rightarrow> if hb then Inr True else expr_has_bounds t)"
| "expr_has_bounds (BvSle s t) =
     (if is_numeral s \<or> is_numeral t then Inr True
      else case expr_has_bounds s of Inl x \<Rightarrow> Inl x
           | Inr hb \<Rightarrow> if hb then Inr True else expr_has_bounds t)"
| "expr_has_bounds (Eq s t) =
     (if is_numeral s \<or> is_numeral t then Inr True
      else case expr_has_bounds s of Inl x \<Rightarrow> Inl x
           | Inr hb \<Rightarrow> if hb then Inr True else expr_has_bounds t)"
| "expr_has_bounds (NotE t) = expr_has_bounds t"
| "expr_has_bounds TrueE = Inr False"
| "expr_has_bounds FalseE = Inr False"
| "expr_has_bounds (App f s ts) = args_have_bounds ts"
| "args_have_bounds [] = Inr False"
| "args_have_bounds (t # ts) =
     (case expr_has_bounds t of Inl x \<Rightarrow> Inl x
      | Inr hb \<Rightarrow> if hb then Inr True else args_have_bounds ts)"

subsection \<open>The bounds context\<close>

text \<open>
  \<^verbatim>\<open>struct undo_bound { expr* e; interval b; bool fresh; }\<close>. A fresh record holds a
  default-constructed \<^verbatim>\<open>interval()\<close>, whose fields are never set: \<open>None\<close>.
\<close>

record undo_bound =
  undo_e :: expr
  undo_b :: "interval option"
  undo_fresh :: bool

text \<open>
  The state of \<^verbatim>\<open>bv_bounds_simplifier\<close>: the option \<^verbatim>\<open>m_propagate_eq\<close>, the scope stack
  \<^verbatim>\<open>m_scopes\<close> (the last record is the newest) and the bound map \<^verbatim>\<open>m_bound\<close>.
\<close>

record ctx =
  m_propagate_eq :: bool
  m_scopes :: "undo_bound list"
  m_bound :: "expr \<rightharpoonup> interval"

text \<open>The constructor with \<^verbatim>\<open>updt_params\<close>: no scopes, no bounds.\<close>

definition bv_bounds_simplifier :: "bool \<Rightarrow> ctx" where
  "bv_bounds_simplifier p = \<lparr>m_propagate_eq = p, m_scopes = [], m_bound = Map.empty\<rparr>"

text \<open>\<^verbatim>\<open>while (m.is_not(t, t)) sign = !sign;\<close>\<close>

fun strip_not :: "expr \<Rightarrow> bool \<Rightarrow> expr \<times> bool" where
  "strip_not (NotE t) sign = strip_not t (\<not> sign)"
| "strip_not t sign = (t, sign)"

text \<open>
  \<^verbatim>\<open>assert_expr(t, sign)\<close>. The \<^verbatim>\<open>VERIFY\<close> macro is defined outside this file: the
  parameter \<open>fatal\<close> says whether a failed \<^verbatim>\<open>VERIFY\<close> stops the program (the call then
  has no result: \<open>Inl VerifyFailed\<close>) or is ignored; \<^verbatim>\<open>negate\<close> has then left \<^verbatim>\<open>b\<close>
  as it was. The result is the returned Boolean with the new state.
\<close>

definition assert_expr :: "bool \<Rightarrow> ctx \<Rightarrow> expr \<Rightarrow> bool \<Rightarrow> error + (bool \<times> ctx)" where
  "assert_expr fatal st t0 sign0 =
     (case strip_not t0 sign0 of (t, sign) \<Rightarrow>
        (case is_bound t of
           None \<Rightarrow> Inr (True, st)
         | Some (t1, b0) \<Rightarrow>
             (case (if sign
                    then (case negate b0 of
                            Some nb \<Rightarrow> Inr nb
                          | None \<Rightarrow> if fatal then Inl VerifyFailed else Inr b0)
                    else Inr b0) of
                Inl x \<Rightarrow> Inl x
              | Inr nb \<Rightarrow>
                  (case m_bound st t1 of
                     Some old \<Rightarrow>
                       (case intersect old nb of
                          None \<Rightarrow> Inr (False, st)
                        | Some intr \<Rightarrow>
                            if interval_eq old intr then Inr (True, st)
                            else Inr (True, st
                              \<lparr>m_scopes := m_scopes st @
                                  [\<lparr>undo_e = t1, undo_b = Some old, undo_fresh = False\<rparr>],
                               m_bound := (m_bound st)(t1 \<mapsto> intr)\<rparr>))
                   | None \<Rightarrow>
                       Inr (True, st
                         \<lparr>m_bound := (m_bound st)(t1 \<mapsto> nb),
                          m_scopes := m_scopes st @
                            [\<lparr>undo_e = t1, undo_b = None, undo_fresh = True\<rparr>]\<rparr>)))))"

text \<open>
  \<^verbatim>\<open>simplify(t, result)\<close>: \<open>Inr (Some r)\<close> where the source returns \<^verbatim>\<open>true\<close> with
  \<^verbatim>\<open>result = r\<close>, \<open>Inr None\<close> where it returns \<^verbatim>\<open>false\<close>.
\<close>

definition simplify :: "ctx \<Rightarrow> expr \<Rightarrow> error + expr option" where
  "simplify st t0 =
     (case (case m_bound st t0 of
              Some c \<Rightarrow> if is_singleton_interval c then Some c else None
            | None \<Rightarrow> None) of
        Some c \<Rightarrow>
          (case get_bv_size t0 of
             Some w \<Rightarrow> Inr (Some (mk_numeral (l c) w))
           | None \<Rightarrow> Inl NotBvSort)
      | None \<Rightarrow>
          if \<not> is_bool t0 then Inr None
          else
            (case strip_not t0 False of (t, sign0) \<Rightarrow>
               (case is_bound t of
                  None \<Rightarrow> Inr None
                | Some (t1, b0) \<Rightarrow>
                    (case (if sign0 \<and> tight b0
                           then (case negate b0 of
                                   None \<Rightarrow> None
                                 | Some nb \<Rightarrow> Some (False, nb))
                           else Some (sign0, b0)) of
                       None \<Rightarrow> Inr (Some FalseE)
                     | Some (sign, nb) \<Rightarrow>
                         (case (if is_full nb \<and> tight nb then Inr (Some TrueE)
                                else
                                  (case m_bound st t1 of
                                     None \<Rightarrow> Inr None
                                   | Some c \<Rightarrow>
                                       if implies_interval c nb then Inr (Some TrueE)
                                       else
                                         (case intersect nb c of
                                            None \<Rightarrow> Inr (Some FalseE)
                                          | Some intr \<Rightarrow>
                                              if m_propagate_eq st \<and> is_singleton_interval intr
                                              then (case get_bv_size t1 of
                                                      Some w \<Rightarrow>
                                                        Inr (Some (Eq t1 (mk_numeral (l intr) w)))
                                                    | None \<Rightarrow> Inl NotBvSort)
                                              else Inr None))) of
                            Inl x \<Rightarrow> Inl x
                          | Inr None \<Rightarrow> Inr None
                          | Inr (Some r) \<Rightarrow> Inr (Some (if sign then NotE r else r)))))))"

text \<open>
  \<^verbatim>\<open>may_simplify(t)\<close>. The loop over \<^verbatim>\<open>m_bound\<close> looks for an entry with a singleton
  interval whose key is among the variables of \<open>t\<close>: a key of that set that the map
  sends to a singleton.
\<close>

definition may_simplify :: "ctx \<Rightarrow> expr \<Rightarrow> error + bool" where
  "may_simplify st t0 =
     (if is_numeral t0 then Inr False
      else
        (case strip_not t0 False of (t, sign) \<Rightarrow>
           if \<exists>k \<in> get_expr_vars t.
                (case m_bound st k of Some c \<Rightarrow> is_singleton_interval c | None \<Rightarrow> False)
           then Inr True
           else
             (case is_bound t of
                Some (t1, b0) \<Rightarrow> Inr (is_full b0 \<or> m_bound st t1 \<noteq> None)
              | None \<Rightarrow> expr_has_bounds t)))"

text \<open>
  \<^verbatim>\<open>pop(num_scopes)\<close>. The loop runs from the newest record down to \<^verbatim>\<open>target\<close>.
  With more scopes asked for than there are, the unsigned \<^verbatim>\<open>target\<close> wraps and
  \<^verbatim>\<open>shrink\<close> is called above the size of the vector: \<open>Inl OverPop\<close>.
\<close>

fun undo_loop :: "undo_bound list \<Rightarrow> (expr \<rightharpoonup> interval) \<Rightarrow> error + (expr \<rightharpoonup> interval)" where
  "undo_loop [] m = Inr m"
| "undo_loop (u # us) m =
     (if undo_fresh u then undo_loop us (m(undo_e u := None))
      else
        (case undo_b u of
           None \<Rightarrow> Inl Uninitialised
         | Some old \<Rightarrow> undo_loop us (m(undo_e u \<mapsto> old))))"

definition pop :: "nat \<Rightarrow> ctx \<Rightarrow> error + ctx" where
  "pop num_scopes st =
     (if m_scopes st = [] then Inr st
      else if length (m_scopes st) < num_scopes then Inl OverPop
      else
        (let target = length (m_scopes st) - num_scopes in
           if target = 0 then Inr (st\<lparr>m_bound := Map.empty, m_scopes := []\<rparr>)
           else
             (case undo_loop (rev (drop target (m_scopes st))) (m_bound st) of
                Inl x \<Rightarrow> Inl x
              | Inr m \<Rightarrow> Inr (st\<lparr>m_bound := m, m_scopes := take target (m_scopes st)\<rparr>))))"

definition scope_level :: "ctx \<Rightarrow> nat" where
  "scope_level st = length (m_scopes st)"

text \<open>
  A run of \<^verbatim>\<open>assert_expr\<close> calls that all return \<^verbatim>\<open>true\<close>: \<open>Some\<close> of the final
  state, and \<open>None\<close> as soon as one call returns \<^verbatim>\<open>false\<close> or does not return.
\<close>

fun assert_all :: "bool \<Rightarrow> ctx \<Rightarrow> (expr \<times> bool) list \<Rightarrow> ctx option" where
  "assert_all fatal st [] = Some st"
| "assert_all fatal st ((t, sign) # fs) =
     (case assert_expr fatal st t sign of
        Inr (True, st') \<Rightarrow> assert_all fatal st' fs
      | _ \<Rightarrow> None)"

text \<open>
  The states a simplifier can be in: it is constructed, and then the driver asserts
  terms of the term manager and pops scopes.
\<close>

inductive reachable :: "bool \<Rightarrow> ctx \<Rightarrow> bool" for fatal :: bool where
  constructed: "reachable fatal (bv_bounds_simplifier p)"
| asserted:
    "reachable fatal st \<Longrightarrow> well_sorted t \<Longrightarrow> assert_expr fatal st t sign = Inr (r, st')
       \<Longrightarrow> reachable fatal st'"
| popped: "reachable fatal st \<Longrightarrow> pop n st = Inr st' \<Longrightarrow> reachable fatal st'"

subsection \<open>The meaning of atoms\<close>

text \<open>
  Modelled from the spec: the meaning of the atoms the extractor recognises, which the
  bit-vector theory (\<^verbatim>\<open>bv_decl_plugin\<close>) gives outside this file: unsigned
  less-or-equal compares the values, signed less-or-equal compares them read in two's
  complement at the width of the operands, and equality is equality of values.
  An assignment gives every term that is not a numeral a 64-bit value (\<open>\<rho>\<close>) and every
  Boolean term that is none of these atoms a truth value (\<open>\<beta>\<close>); no relation between
  the value of a term and the values of its arguments is assumed.
\<close>

definition sval :: "nat \<Rightarrow> uint64 \<Rightarrow> int" where
  "sval w v = (if v < push_bit (w - 1) 1 then uint v else uint v - 2 ^ w)"

fun val :: "(expr \<Rightarrow> uint64) \<Rightarrow> expr \<Rightarrow> uint64" where
  "val \<rho> (BvNumeral r w) = of_nat r"
| "val \<rho> t = \<rho> t"

fun holds :: "(expr \<Rightarrow> uint64) \<Rightarrow> (expr \<Rightarrow> bool) \<Rightarrow> expr \<Rightarrow> bool" where
  "holds \<rho> \<beta> (BvUle s t) = (val \<rho> s \<le> val \<rho> t)"
| "holds \<rho> \<beta> (BvSle s t) =
     (case get_sort s of
        BvSort w \<Rightarrow> sval w (val \<rho> s) \<le> sval w (val \<rho> t)
      | BoolSort \<Rightarrow> False)"
| "holds \<rho> \<beta> (Eq s t) =
     (case get_sort s of
        BvSort w \<Rightarrow> val \<rho> s = val \<rho> t
      | BoolSort \<Rightarrow> holds \<rho> \<beta> s = holds \<rho> \<beta> t)"
| "holds \<rho> \<beta> (NotE t) = (\<not> holds \<rho> \<beta> t)"
| "holds \<rho> \<beta> TrueE = True"
| "holds \<rho> \<beta> FalseE = False"
| "holds \<rho> \<beta> t = \<beta> t"

text \<open>
  A fixed-width assignment for a term: the value of every subterm of bit-vector sort
  lies within the width of that sort.
\<close>

definition fits :: "(expr \<Rightarrow> uint64) \<Rightarrow> expr \<Rightarrow> bool" where
  "fits \<rho> t =
     (\<forall>k \<in> get_expr_vars t.
        case get_sort k of BvSort w \<Rightarrow> \<rho> k \<le> uMaxInt w | BoolSort \<Rightarrow> True)"

text \<open>
  An asserted fact \<open>(t, sign)\<close> is the term \<open>t\<close>, negated when \<open>sign\<close> is set.
\<close>

definition fact_holds :: "(expr \<Rightarrow> uint64) \<Rightarrow> (expr \<Rightarrow> bool) \<Rightarrow> expr \<times> bool \<Rightarrow> bool" where
  "fact_holds \<rho> \<beta> f = (holds \<rho> \<beta> (fst f) \<noteq> snd f)"

subsection \<open>What the reachable states have in common\<close>

text \<open>
  An entry of the bound map has a key of bit-vector sort that is no numeral, and an
  interval of the width of that sort, between 1 and 64 bits, that satisfies the
  source's \<^verbatim>\<open>invariant()\<close>.
\<close>

definition entry_ok :: "expr \<Rightarrow> interval \<Rightarrow> bool" where
  "entry_ok k c =
     (\<not> is_numeral k \<and> get_sort k = BvSort (sz c) \<and> 0 < sz c \<and> sz c \<le> 64 \<and> invariant c)"

definition undo_ok :: "undo_bound \<Rightarrow> bool" where
  "undo_ok u =
     (if undo_fresh u then True
      else case undo_b u of None \<Rightarrow> False | Some old \<Rightarrow> entry_ok (undo_e u) old)"

definition ctx_inv :: "ctx \<Rightarrow> bool" where
  "ctx_inv st =
     ((\<forall>k c. m_bound st k = Some c \<longrightarrow> entry_ok k c) \<and>
      list_all undo_ok (m_scopes st) \<and>
      (m_scopes st = [] \<longrightarrow> m_bound st = Map.empty))"

section \<open>Intervals\<close>

lemma uMaxInt_mask: "w \<le> 64 \<Longrightarrow> uMaxInt w = mask w"
  unfolding uMaxInt_def by (rule bit_word_eqI) (auto simp add: bit_simps)

lemma uint_uMaxInt: 
  assumes "w \<le> 64" shows "uint (uMaxInt w) = 2 ^ w - 1"
  unfolding uMaxInt_mask [OF assms] uint_mask_eq
  using assms by (simp add: min_def mask_eq_exp_minus_1)

lemma le_uMaxInt_iff: "w \<le> 64 \<Longrightarrow> v \<le> uMaxInt w \<longleftrightarrow> uint v < 2 ^ w"
  by (simp add: word_le_def uint_uMaxInt)

lemma word_succ_cover: "(hi :: uint64) < hi + 1 \<Longrightarrow> v \<le> hi \<or> hi + 1 \<le> v"
  using inc_le [of hi v] linorder_not_less by blast

lemma contains_mk_interval:
  "contains (mk_interval lo hi w t) v \<longleftrightarrow>
     v \<le> uMaxInt w \<and> (if lo \<le> hi then lo \<le> v \<and> v \<le> hi else v \<le> hi \<or> lo \<le> v)"
  using word_succ_cover [of hi v]
  by (auto simp: contains_def mk_interval_def)

lemma sz_mk_interval [simp]: "sz (mk_interval lo hi w t) = w"
  by (simp add: mk_interval_def)

lemma tight_mk_interval [simp]: "tight (mk_interval lo hi w t) = t"
  by (simp add: mk_interval_def)

lemma invariant_mk_interval:
  "lo \<le> uMaxInt w \<Longrightarrow> hi \<le> uMaxInt w \<Longrightarrow> invariant (mk_interval lo hi w t)"
  by (auto simp: invariant_def mk_interval_def is_wrapped_def)

lemma contains_l: "invariant a \<Longrightarrow> \<not> is_wrapped a \<Longrightarrow> contains a (l a)"
  by (auto simp: invariant_def contains_def is_wrapped_def)

lemma contains_h: "invariant a \<Longrightarrow> \<not> is_wrapped a \<Longrightarrow> contains a (h a)"
  by (auto simp: invariant_def contains_def is_wrapped_def)

lemma contains_0: "invariant a \<Longrightarrow> is_wrapped a \<Longrightarrow> contains a 0"
  by (auto simp: invariant_def contains_def is_wrapped_def)

lemma contains_full: "is_full a \<Longrightarrow> contains a v \<longleftrightarrow> v \<le> uMaxInt (sz a)"
  by (auto simp: is_full_def contains_def)

lemma contains_eq: "interval_eq a c \<Longrightarrow> sz a = sz c \<Longrightarrow> contains a v = contains c v"
  by (auto simp: interval_eq_def contains_def)

lemma nonempty: "invariant a \<Longrightarrow> \<exists>v. contains a v"
  using contains_l contains_0 by blast

subsection \<open>Intersection\<close>

lemma intersect_swap:
  "is_wrapped a \<Longrightarrow> \<not> is_wrapped c \<Longrightarrow> \<not> is_full c \<Longrightarrow> intersect a c = intersect c a"
  by (subst intersect.simps) (auto simp: is_full_def is_wrapped_def interval_eq_def)

lemma intersect_sound_aux:
  assumes "\<not> (is_wrapped a \<and> \<not> is_wrapped c)" "sz a = sz c"
    and "intersect a c = Some r" "contains a v" "contains c v"
  shows "contains r v"
  using assms
  apply (subst (asm) intersect.simps)
  apply (auto simp: contains_mk_interval split: if_splits)
  apply (auto simp: contains_def is_wrapped_def split: if_splits)
  done

lemma intersect_sound:
  assumes "sz a = sz c" "intersect a c = Some r" "contains a v" "contains c v"
  shows "contains r v"
proof (cases "is_wrapped a \<and> \<not> is_wrapped c")
  case False
  then show ?thesis using assms intersect_sound_aux by blast
next
  case True
  show ?thesis
  proof (cases "is_full c")
    case True
    then show ?thesis using assms
      by (subst (asm) intersect.simps) (auto split: if_splits)
  next
    case False
    with True have "intersect c a = Some r" using assms(2) intersect_swap [of a c] by auto
    with True show ?thesis using intersect_sound_aux [of c a r v] assms by auto
  qed
qed

lemma intersect_nonempty_aux:
  assumes ord: "\<not> (is_wrapped a \<and> \<not> is_wrapped c)" and w: "sz a = sz c"
    and ia: "invariant a" and ic: "invariant c"
    and r: "intersect a c \<noteq> None"
  shows "\<exists>v. contains a v \<and> contains c v"
proof -
  consider (fast) "is_full a \<or> interval_eq a c \<or> is_full c"
    | (ww) "is_wrapped a" "is_wrapped c"
    | (nw) "\<not> is_wrapped a" "is_wrapped c" "\<not> (h a < l c \<and> l a > h c)"
    | (nn) "\<not> is_wrapped a" "\<not> is_wrapped c" "\<not> (l a > h c \<or> h a < l c)"
    using ord r unfolding intersect.simps [of a c] by (auto split: if_splits)
  then show ?thesis
  proof cases
    case fast
    then show ?thesis
      using nonempty [OF ia] nonempty [OF ic] w
      by (auto simp: contains_full contains_eq) (auto simp: contains_def)
  next
    case ww
    then show ?thesis using contains_0 ia ic by blast
  next
    case nw
    show ?thesis
    proof (cases "l a \<le> h c")
      case True
      then have "contains c (l a)" using nw ia w
        by (auto simp: contains_def is_wrapped_def invariant_def)
      then show ?thesis using contains_l [OF ia nw(1)] by blast
    next
      case False
      then have "contains c (h a)" using nw ia w
        by (auto simp: contains_def is_wrapped_def invariant_def)
      then show ?thesis using contains_h [OF ia nw(1)] by blast
    qed
  next
    case nn
    then have "contains a (max (l a) (l c))" "contains c (max (l a) (l c))"
      using ia ic w by (auto simp: contains_def is_wrapped_def invariant_def max_def)
    then show ?thesis by blast
  qed
qed

lemma intersect_None_sound_aux:
  assumes "\<not> (is_wrapped a \<and> \<not> is_wrapped c)" "intersect a c = None"
  shows "\<not> (contains a v \<and> contains c v)"
  using assms
  apply (subst (asm) intersect.simps)
  apply (auto simp: contains_def is_wrapped_def split: if_splits)
  done

lemma intersect_None_iff_aux:
  assumes "\<not> (is_wrapped a \<and> \<not> is_wrapped c)" "sz a = sz c" "invariant a" "invariant c"
  shows "intersect a c = None \<longleftrightarrow> (\<forall>v. \<not> (contains a v \<and> contains c v))"
  using intersect_nonempty_aux [OF assms] intersect_None_sound_aux [OF assms(1)] by blast

lemma intersect_full_r: "is_full c \<Longrightarrow> intersect a c \<noteq> None"
  by (subst intersect.simps) auto

lemma intersect_None_iff:
  assumes w: "sz a = sz c" and ia: "invariant a" and ic: "invariant c"
  shows "intersect a c = None \<longleftrightarrow> (\<forall>v. \<not> (contains a v \<and> contains c v))"
proof (cases "is_wrapped a \<and> \<not> is_wrapped c")
  case False
  then show ?thesis using intersect_None_iff_aux assms by blast
next
  case True
  show ?thesis
  proof (cases "is_full c")
    case True
    then have "contains a 0" "contains c 0"
      using \<open>is_wrapped a \<and> \<not> is_wrapped c\<close> contains_0 [OF ia]
      by (auto simp: contains_full)
    then show ?thesis using intersect_full_r [OF True] by blast
  next
    case False
    with True have "intersect a c = intersect c a" using intersect_swap [of a c] by auto
    moreover have "intersect c a = None \<longleftrightarrow> (\<forall>v. \<not> (contains c v \<and> contains a v))"
      using intersect_None_iff_aux [of c a] True assms by auto
    ultimately show ?thesis by auto
  qed
qed

lemma invariant_bounds: "invariant a \<Longrightarrow> l a \<le> uMaxInt (sz a) \<and> h a \<le> uMaxInt (sz a)"
  by (simp add: invariant_def)

lemma intersect_inv_aux:
  assumes "\<not> (is_wrapped a \<and> \<not> is_wrapped c)" "sz a = sz c" "invariant a" "invariant c"
    and "intersect a c = Some r"
  shows "invariant r \<and> sz r = sz a"
proof -
  have b: "l a \<le> uMaxInt (sz a)" "h a \<le> uMaxInt (sz a)"
    "l c \<le> uMaxInt (sz a)" "h c \<le> uMaxInt (sz a)"
    using assms(2-4) by (simp_all add: invariant_def)
  show ?thesis
    using assms b
    apply (subst (asm) intersect.simps)
    apply (auto split: if_splits intro!: invariant_mk_interval simp: min_le_iff_disj)
    done
qed

lemma intersect_inv:
  assumes "sz a = sz c" "invariant a" "invariant c" "intersect a c = Some r"
  shows "invariant r \<and> sz r = sz a"
proof (cases "is_wrapped a \<and> \<not> is_wrapped c")
  case False
  then show ?thesis using assms intersect_inv_aux by blast
next
  case True
  show ?thesis
  proof (cases "is_full c")
    case True
    then show ?thesis using assms
      by (subst (asm) intersect.simps) (auto split: if_splits)
  next
    case False
    with True have "intersect c a = Some r" using assms(4) intersect_swap [of a c] by auto
    with True show ?thesis using intersect_inv_aux [of c a r] assms by auto
  qed
qed

lemma intersect_cases:
  assumes "\<not> (is_wrapped a \<and> \<not> is_wrapped c)" "intersect a c = Some r"
  shows "is_full a \<and> r = c \<or>
    \<not> is_full a \<and> interval_eq a c \<and> r = c \<or>
    \<not> is_full a \<and> \<not> interval_eq a c \<and> is_full c \<and> r = a \<or>
    \<not> is_full a \<and> \<not> is_full c \<and> is_wrapped a \<and> is_wrapped c \<and> l c \<le> h a \<and> r = c \<or>
    \<not> is_full a \<and> \<not> is_full c \<and> is_wrapped a \<and> is_wrapped c \<and> \<not> l c \<le> h a \<and> l a \<le> h c \<and> r = a \<or>
    \<not> is_full a \<and> \<not> is_full c \<and> is_wrapped a \<and> is_wrapped c \<and> \<not> l c \<le> h a \<and> \<not> l a \<le> h c \<and>
        r = mk_interval (max (l a) (l c)) (min (h a) (h c)) (sz a) False \<or>
    \<not> is_full a \<and> \<not> is_full c \<and> \<not> is_wrapped a \<and> is_wrapped c \<and> l c \<le> h a \<and> l a \<le> h c \<and> r = c \<or>
    \<not> is_full a \<and> \<not> is_full c \<and> \<not> is_wrapped a \<and> is_wrapped c \<and> l c \<le> h a \<and> \<not> l a \<le> h c \<and>
        r = mk_interval (l c) (h a) (sz a) False \<or>
    \<not> is_full a \<and> \<not> is_full c \<and> \<not> is_wrapped a \<and> is_wrapped c \<and> \<not> l c \<le> h a \<and> l a \<le> h c \<and>
        r = mk_interval (l a) (min (h a) (h c)) (sz a) False \<or>
    \<not> is_full a \<and> \<not> is_full c \<and> \<not> is_wrapped a \<and> \<not> is_wrapped c \<and> l a \<le> h c \<and> l c \<le> h a \<and>
        r = mk_interval (max (l a) (l c)) (min (h a) (h c)) (sz a) (tight a \<and> tight c)"
  using assms unfolding intersect.simps [of a c]
  by (simp split: if_splits add: not_less) (elim disjE; simp)


lemma two_gaps_sym: "two_gaps c a = two_gaps a c"
  by (auto simp: two_gaps_def)

lemma inside_upper_piece_sym: "inside_upper_piece c a = inside_upper_piece a c"
  by (auto simp: inside_upper_piece_def)

lemma intersect_exact_aux:
  assumes ord: "\<not> (is_wrapped a \<and> \<not> is_wrapped c)" and w: "sz a = sz c"
    and ia: "invariant a" and ic: "invariant c"
    and g: "\<not> two_gaps a c" and u: "\<not> inside_upper_piece a c"
    and r: "intersect a c = Some r"
  shows "contains r v \<longleftrightarrow> contains a v \<and> contains c v"
proof -
  have b: "l a \<le> uMaxInt (sz c)" "h a \<le> uMaxInt (sz c)"
    "l c \<le> uMaxInt (sz c)" "h c \<le> uMaxInt (sz c)"
    using w ia ic by (simp_all add: invariant_def)
  from intersect_cases [OF ord r] show ?thesis
  proof (elim disjE conjE, goal_cases)
    case 1
    then show ?case using w by (auto simp: contains_full) (auto simp: contains_def)
  next
    case 2
    then show ?case using contains_eq [OF _ w, of v] by auto
  next
    case 3
    then show ?case using w by (auto simp: contains_full) (auto simp: contains_def)
  next
    case 4
    then show ?case using g by (simp add: two_gaps_def)
  next
    case 5
    then show ?case using g by (simp add: two_gaps_def)
  next
    case 6
    show ?case unfolding 6(7) contains_mk_interval using 6(3-6) b w
      by (auto simp: contains_def is_wrapped_def)
  next
    case 7
    then show ?case using g by (simp add: two_gaps_def)
  next
    case 8
    have "l a \<le> l c" using u 8(3,4) by (simp add: inside_upper_piece_def)
    then show ?case unfolding 8(7) contains_mk_interval using 8(3-6) b w
      by (auto simp: contains_def is_wrapped_def)
  next
    case 9
    show ?case unfolding 9(7) contains_mk_interval using 9(3-6) b w
      by (auto simp: contains_def is_wrapped_def)
  next
    case 10
    show ?case unfolding 10(7) contains_mk_interval using 10(3-6) b w
      by (auto simp: contains_def is_wrapped_def)
  qed
qed

lemma intersect_exact:
  assumes "sz a = sz c" "invariant a" "invariant c"
    and "\<not> two_gaps a c" "\<not> inside_upper_piece a c"
    and "intersect a c = Some r"
  shows "contains r v \<longleftrightarrow> contains a v \<and> contains c v"
proof (cases "is_wrapped a \<and> \<not> is_wrapped c")
  case False
  then show ?thesis using assms intersect_exact_aux by blast
next
  case True
  show ?thesis
  proof (cases "is_full c")
    case True
    then have "r = a" using assms(6) \<open>is_wrapped a \<and> \<not> is_wrapped c\<close>
      unfolding intersect.simps [of a c]
      by (auto simp: is_full_def is_wrapped_def interval_eq_def split: if_splits)
    then show ?thesis using True assms(1) by (auto simp: contains_full) (auto simp: contains_def)
  next
    case False
    with True have "intersect c a = Some r" using assms(6) intersect_swap [of a c] by auto
    from intersect_exact_aux [of c a r v, OF _ _ assms(3,2) _ _ this] True assms(1,4,5)
    show ?thesis by (auto simp: two_gaps_sym inside_upper_piece_sym)
  qed
qed

lemma intersect_two_gaps_aux:
  assumes "\<not> (is_wrapped a \<and> \<not> is_wrapped c)" "two_gaps a c" "intersect a c = Some r"
  shows "(r = a \<or> r = c) \<and> is_wrapped r"
  using intersect_cases [OF assms(1,3)] assms(2)
  by (auto simp: two_gaps_def is_wrapped_def interval_eq_def split: if_splits)

lemma intersect_two_gaps:
  assumes "two_gaps a c" "intersect a c = Some r"
  shows "(r = a \<or> r = c) \<and> is_wrapped r"
proof (cases "is_wrapped a \<and> \<not> is_wrapped c")
  case False
  then show ?thesis using assms intersect_two_gaps_aux by blast
next
  case True
  have "\<not> is_full c" using assms(1) by (simp add: two_gaps_def)
  with True have "intersect c a = Some r" using assms(2) intersect_swap [of a c] by auto
  from intersect_two_gaps_aux [of c a r, OF _ _ this] True assms(1)
  show ?thesis by (auto simp: two_gaps_sym)
qed


lemma gap_point: "(x :: uint64) < y \<Longrightarrow> y \<noteq> x + 1 \<Longrightarrow> \<exists>p. x < p \<and> p < y"
proof
  assume "x < y" "y \<noteq> x + 1"
  then show "x < x + 1 \<and> x + 1 < y" by unat_arith
qed

lemma two_gaps_no_interval_ww:
  assumes wa: "is_wrapped a" and wc: "is_wrapped c" and o: "l c \<le> h a"
    and ia: "invariant a" and ic: "invariant c" and ir: "invariant r"
    and w: "sz a = sz c" "sz r = sz a"
    and eq: "\<forall>v. contains r v \<longleftrightarrow> contains a v \<and> contains c v"
  shows False
proof -
  let ?M = "uMaxInt (sz a)"
  have b: "l a \<le> ?M" "h a \<le> ?M" "l c \<le> ?M" "h c \<le> ?M" "l r \<le> ?M" "h r \<le> ?M"
    "h a < l a" "h c < l c" "l a \<noteq> h a + 1" "l c \<noteq> h c + 1"
    using ia ic ir w wa wc by (auto simp: invariant_def is_wrapped_def)
  obtain p where p: "h c < p" "p < l c" using gap_point b(8,10) by blast
  obtain q where q: "h a < q" "q < l a" using gap_point b(7,9) by blast
  have "\<not> contains c p" using p by (auto simp: contains_def)
  then have np: "\<not> contains r p" using eq by blast
  have "\<not> contains a q" using q by (auto simp: contains_def)
  then have nq: "\<not> contains r q" using eq by blast
  have "contains a (l c) \<and> contains c (l c)" "contains a 0 \<and> contains c 0"
    "contains a ?M \<and> contains c ?M"
    using b o w by (auto simp: contains_def)
  then have in1: "contains r (l c)" "contains r 0" "contains r ?M" using eq by blast+
  have pM: "p \<le> uMaxInt (sz r)" "q \<le> uMaxInt (sz r)" using p q b w by auto
  show False
  proof (cases "l r \<le> h r")
    case True
    then have "l r \<le> 0" "?M \<le> h r" using in1(2,3) by (auto simp: contains_def)
    then have "contains r p" using True pM b w by (auto simp: contains_def)
    then show ?thesis using np by simp
  next
    case False
    then have 1: "h r < p" "p < l r" using np pM by (auto simp: contains_def)
    have 2: "h r < q" "q < l r" using nq pM False by (auto simp: contains_def)
    have "l c \<le> h r \<or> l r \<le> l c" using in1(1) False by (auto simp: contains_def)
    then have "l r \<le> l c" using 1 p by auto
    then show ?thesis using 2 q o by auto
  qed
qed

lemma two_gaps_no_interval_nw:
  assumes wa: "\<not> is_wrapped a" and nf: "\<not> is_full a" and wc: "is_wrapped c"
    and o: "l c \<le> h a" "l a \<le> h c"
    and ia: "invariant a" and ic: "invariant c" and ir: "invariant r"
    and w: "sz a = sz c" "sz r = sz a"
    and eq: "\<forall>v. contains r v \<longleftrightarrow> contains a v \<and> contains c v"
  shows False
proof -
  let ?M = "uMaxInt (sz a)"
  have b: "l a \<le> ?M" "h a \<le> ?M" "l c \<le> ?M" "h c \<le> ?M" "l r \<le> ?M" "h r \<le> ?M"
    "l a \<le> h a" "h c < l c" "l c \<noteq> h c + 1" "l a \<noteq> 0 \<or> h a \<noteq> ?M"
    using ia ic ir w wa wc nf by (auto simp: invariant_def is_wrapped_def is_full_def)
  obtain p where p: "h c < p" "p < l c" using gap_point b(8,9) by blast
  have "\<not> contains c p" using p by (auto simp: contains_def)
  then have np: "\<not> contains r p" using eq by blast
  have "contains a (h c) \<and> contains c (h c)" "contains a (l c) \<and> contains c (l c)"
    using b o w by (auto simp: contains_def)
  then have in1: "contains r (h c)" "contains r (l c)" using eq by blast+
  have pM: "p \<le> uMaxInt (sz r)" using p b w by auto
  show False
  proof (cases "l r \<le> h r")
    case True
    then have "l r \<le> h c" "l c \<le> h r" using in1 by (auto simp: contains_def)
    then have "contains r p" using True pM p by (auto simp: contains_def)
    then show ?thesis using np by simp
  next
    case False
    then have "contains r 0" "contains r ?M" using b w by (auto simp: contains_def)
    then have "contains a 0" "contains a ?M" using eq by blast+
    then have "l a = 0" "h a = ?M" using b(1,2,7) by (auto simp: contains_def)
    then show ?thesis using b(10) by simp
  qed
qed

lemma two_gaps_no_interval:
  assumes g: "two_gaps a c" and ia: "invariant a" and ic: "invariant c" and ir: "invariant r"
    and w: "sz a = sz c" "sz r = sz a"
  shows "\<not> (\<forall>v. contains r v \<longleftrightarrow> contains a v \<and> contains c v)"
proof
  assume eq: "\<forall>v. contains r v \<longleftrightarrow> contains a v \<and> contains c v"
  then have eq': "\<forall>v. contains r v \<longleftrightarrow> contains c v \<and> contains a v" by auto
  have w': "sz c = sz a" "sz r = sz c" using w by simp_all
  from g consider (ww1) "is_wrapped a" "is_wrapped c" "l c \<le> h a"
    | (ww2) "is_wrapped a" "is_wrapped c" "l a \<le> h c"
    | (nw) "\<not> is_wrapped a" "\<not> is_full a" "is_wrapped c" "l c \<le> h a" "l a \<le> h c"
    | (wn) "\<not> is_wrapped c" "\<not> is_full c" "is_wrapped a" "l a \<le> h c" "l c \<le> h a"
    by (auto simp: two_gaps_def split: if_splits)
  then show False
  proof cases
    case ww1
    then show ?thesis using two_gaps_no_interval_ww [OF _ _ _ ia ic ir w eq] by blast
  next
    case ww2
    then show ?thesis using two_gaps_no_interval_ww [OF _ _ _ ic ia ir w' eq'] by blast
  next
    case nw
    then show ?thesis using two_gaps_no_interval_nw [OF _ _ _ _ _ ia ic ir w eq] by blast
  next
    case wn
    then show ?thesis using two_gaps_no_interval_nw [OF _ _ _ _ _ ic ia ir w' eq'] by blast
  qed
qed

text \<open>
  Claim C2, as amended. For intervals \<open>a\<close> and \<open>c\<close> of one width that satisfy the
  source's invariant, \<open>intersect\<close> signals emptiness exactly when no value lies in
  both. Otherwise, and leaving aside the pairs in which a non-wrapped operand lies
  inside the upper piece of a wrapped one above its lower end (line 115), it returns an
  interval of the same width that satisfies the invariant, and
  \<^item> the value set of the result is exactly the set of the values that lie in both,
    unless these have two gaps;
  \<^item> when they have two gaps, no interval of that width denotes them, and the result
    is one of the operands, a wrapped one, which contains them.
\<close>

theorem intersect_exact_unless_two_gaps:
  assumes "invariant a" "invariant c" "sz a = sz c"
  shows "(intersect a c = None \<longleftrightarrow> (\<forall>v. \<not> (contains a v \<and> contains c v))) \<and>
         (\<forall>r. intersect a c = Some r \<and> \<not> inside_upper_piece a c \<longrightarrow>
            invariant r \<and> sz r = sz a \<and>
            (if two_gaps a c
             then (r = a \<or> r = c) \<and> is_wrapped r \<and>
                  (\<forall>v. contains a v \<and> contains c v \<longrightarrow> contains r v) \<and>
                  \<not> (\<exists>r'. invariant r' \<and> sz r' = sz a \<and>
                         (\<forall>v. contains r' v \<longleftrightarrow> contains a v \<and> contains c v))
             else (\<forall>v. contains r v \<longleftrightarrow> contains a v \<and> contains c v)))"
proof (intro conjI allI impI)
  show "intersect a c = None \<longleftrightarrow> (\<forall>v. \<not> (contains a v \<and> contains c v))"
    by (rule intersect_None_iff [OF assms(3,1,2)])
next
  fix r
  assume "intersect a c = Some r \<and> \<not> inside_upper_piece a c"
  then have r: "intersect a c = Some r" and u: "\<not> inside_upper_piece a c" by simp_all
  show "invariant r" "sz r = sz a"
    using intersect_inv [OF assms(3,1,2) r] by simp_all
  show "if two_gaps a c
        then (r = a \<or> r = c) \<and> is_wrapped r \<and>
             (\<forall>v. contains a v \<and> contains c v \<longrightarrow> contains r v) \<and>
             \<not> (\<exists>r'. invariant r' \<and> sz r' = sz a \<and>
                    (\<forall>v. contains r' v \<longleftrightarrow> contains a v \<and> contains c v))
        else (\<forall>v. contains r v \<longleftrightarrow> contains a v \<and> contains c v)"
  proof (cases "two_gaps a c")
    case True
    then show ?thesis
      using intersect_two_gaps [OF True r] intersect_sound [OF assms(3) r]
        two_gaps_no_interval [OF True assms(1,2) _ assms(3)]
      by auto
  next
    case False
    then show ?thesis using intersect_exact [OF assms(3,1,2) False u r] by simp
  qed
qed

theorem intersect_exact_unless_two_gaps_witness:
  "invariant \<lparr>l = 200, h = 100, sz = 8, tight = True\<rparr> \<and>
   invariant \<lparr>l = 250, h = 50, sz = 8, tight = True\<rparr> \<and>
   \<not> inside_upper_piece \<lparr>l = 200, h = 100, sz = 8, tight = True\<rparr>
         \<lparr>l = 250, h = 50, sz = 8, tight = True\<rparr> \<and>
   \<not> two_gaps \<lparr>l = 200, h = 100, sz = 8, tight = True\<rparr> \<lparr>l = 250, h = 50, sz = 8, tight = True\<rparr> \<and>
   intersect \<lparr>l = 200, h = 100, sz = 8, tight = True\<rparr> \<lparr>l = 250, h = 50, sz = 8, tight = True\<rparr>
     = Some \<lparr>l = 250, h = 50, sz = 8, tight = False\<rparr> \<and>
   \<not> contains \<lparr>l = 250, h = 50, sz = 8, tight = False\<rparr> 60"
proof -
  let ?a = "\<lparr>l = 200, h = 100, sz = 8, tight = True\<rparr>"
  let ?c = "\<lparr>l = 250, h = 50, sz = 8, tight = True\<rparr>"
  let ?r = "\<lparr>l = 250, h = 50, sz = 8, tight = False\<rparr>"
  have i: "invariant ?a" "invariant ?c" "sz ?a = sz ?c"
    by (simp_all add: invariant_def is_wrapped_def uMaxInt_def mask_eq_exp_minus_1)
  have u: "\<not> inside_upper_piece ?a ?c" by (simp add: inside_upper_piece_def is_wrapped_def)
  have g: "\<not> two_gaps ?a ?c" by (simp add: two_gaps_def is_wrapped_def)
  have r: "intersect ?a ?c = Some ?r"
    by (simp add: intersect.simps is_full_def is_wrapped_def interval_eq_def mk_interval_def
        uMaxInt_def mask_eq_exp_minus_1)
  have nc: "\<not> contains ?c 60" by (simp add: contains_def)
  from intersect_exact_unless_two_gaps [OF i] r u g nc have n: "\<not> contains ?r 60"
    by (simp del: interval.simps)
  show ?thesis using i(1,2) u g r n by (intro conjI)
qed

text \<open>
  Claim C2 as stated fails: two wrapped intervals of width 8, \<open>[0,100] \<union> [200,255]\<close>
  and \<open>[0,10] \<union> [50,255]\<close>, whose common values
  \<open>[0,10] \<union> [50,100] \<union> [200,255]\<close> have two gaps. The result is the second
  operand, which contains 150; the first operand does not.
\<close>

theorem intersect_not_exact:
  "invariant \<lparr>l = 200, h = 100, sz = 8, tight = True\<rparr> \<and>
   invariant \<lparr>l = 50, h = 10, sz = 8, tight = True\<rparr> \<and>
   two_gaps \<lparr>l = 200, h = 100, sz = 8, tight = True\<rparr> \<lparr>l = 50, h = 10, sz = 8, tight = True\<rparr> \<and>
   intersect \<lparr>l = 200, h = 100, sz = 8, tight = True\<rparr> \<lparr>l = 50, h = 10, sz = 8, tight = True\<rparr>
     = Some \<lparr>l = 50, h = 10, sz = 8, tight = True\<rparr> \<and>
   contains \<lparr>l = 50, h = 10, sz = 8, tight = True\<rparr> 150 \<and>
   \<not> contains \<lparr>l = 200, h = 100, sz = 8, tight = True\<rparr> 150"
  by (simp add: invariant_def is_wrapped_def uMaxInt_def mask_eq_exp_minus_1
      intersect.simps is_full_def interval_eq_def contains_def two_gaps_def)

text \<open>
  The pairs left aside. Line 115 builds \<^verbatim>\<open>interval(b.l, h, sz)\<close> where the branches
  beside it take the larger of the two lower ends (lines 101, 119 and 126). At width 8
  the operand \<open>[220,250]\<close> lies inside \<open>[0,100] \<union> [200,255]\<close>, and the result is
  \<open>[200,250]\<close>.
\<close>

lemma intersect_inside_upper_piece:
  "inside_upper_piece \<lparr>l = 220, h = 250, sz = 8, tight = True\<rparr>
     \<lparr>l = 200, h = 100, sz = 8, tight = True\<rparr> \<and>
   intersect \<lparr>l = 220, h = 250, sz = 8, tight = True\<rparr> \<lparr>l = 200, h = 100, sz = 8, tight = True\<rparr>
     = Some \<lparr>l = 200, h = 250, sz = 8, tight = False\<rparr>"
  by (simp add: inside_upper_piece_def intersect.simps is_full_def is_wrapped_def
      interval_eq_def mk_interval_def uMaxInt_def mask_eq_exp_minus_1)

subsection \<open>Negation\<close>

lemma negate_None_iff: "negate a = None \<longleftrightarrow> tight a \<and> is_full a"
  by (simp add: negate_def)

lemma negate_not_tight: "negate a = Some n \<Longrightarrow> \<not> tight n"
  by (auto simp: negate_def split: if_splits)

lemma negate_tight_sz: "tight a \<Longrightarrow> negate a = Some n \<Longrightarrow> sz n = sz a"
  by (auto simp: negate_def split: if_splits)

lemma word_le_succ_iff: "(x :: uint64) < m \<Longrightarrow> x + 1 \<le> v \<longleftrightarrow> x < v"
  by unat_arith

lemma word_le_pred_iff: "(x :: uint64) \<noteq> 0 \<Longrightarrow> v \<le> x - 1 \<longleftrightarrow> v < x"
  by unat_arith

lemma word_succ_le: "(x :: uint64) < m \<Longrightarrow> x + 1 \<le> m"
  by (rule inc_le)

lemma word_pred_le: "(x :: uint64) \<le> m \<Longrightarrow> x \<noteq> 0 \<Longrightarrow> x - 1 \<le> m"
  by unat_arith

lemma negate_tight_cases:
  assumes "tight a" "negate a = Some n"
  obtains (low) "l a = 0" "h a \<noteq> uMaxInt (sz a)" "n = mk_interval (h a + 1) (uMaxInt (sz a)) (sz a) False"
  | (high) "l a \<noteq> 0" "h a = uMaxInt (sz a)" "n = mk_interval 0 (l a - 1) (sz a) False"
  | (mid) "l a \<noteq> 0" "h a \<noteq> uMaxInt (sz a)" "n = mk_interval (h a + 1) (l a - 1) (sz a) False"
  using assms by (auto simp: negate_def is_full_def split: if_splits)

lemma negate_tight_inv:
  assumes t: "tight a" and i: "invariant a" and n: "negate a = Some n"
  shows "invariant n"
proof -
  have b: "l a \<le> uMaxInt (sz a)" "h a \<le> uMaxInt (sz a)"
    using i by (simp_all add: invariant_def)
  from t n show ?thesis
  proof (cases rule: negate_tight_cases)
    case low
    then show ?thesis using b word_succ_le [of "h a" "uMaxInt (sz a)"]
      by (auto intro!: invariant_mk_interval)
  next
    case high
    then show ?thesis using b word_pred_le [of "l a" "uMaxInt (sz a)"]
      by (auto intro!: invariant_mk_interval)
  next
    case mid
    then show ?thesis using b word_pred_le [of "l a" "uMaxInt (sz a)"]
        word_succ_le [of "h a" "uMaxInt (sz a)"]
      by (auto intro!: invariant_mk_interval)
  qed
qed

lemma negate_complement:
  assumes t: "tight a" and i: "invariant a" and n: "negate a = Some n"
    and v: "v \<le> uMaxInt (sz a)"
  shows "contains n v \<longleftrightarrow> \<not> contains a v"
proof -
  have b: "l a \<le> uMaxInt (sz a)" "h a \<le> uMaxInt (sz a)" "l a > h a \<longrightarrow> l a \<noteq> h a + 1"
    using i by (auto simp add: invariant_def is_wrapped_def)
  from t n show ?thesis
  proof (cases rule: negate_tight_cases)
    case low
    then have "h a < uMaxInt (sz a)" using b by auto
    then show ?thesis unfolding low(3) contains_mk_interval
      using low(1) v word_le_succ_iff [of "h a" "uMaxInt (sz a)" v]
        word_succ_le [of "h a" "uMaxInt (sz a)"]
      by (auto simp: contains_def)
  next
    case high
    then show ?thesis unfolding high(3) contains_mk_interval
      using v b word_le_pred_iff [of "l a" v]
      by (auto simp: contains_def)
  next
    case mid
    then have hm: "h a < uMaxInt (sz a)" using b by auto
    show ?thesis
    proof (cases "l a \<le> h a")
      case True
      then have "\<not> h a + 1 \<le> l a - 1"
        using hm mid(1) by unat_arith
      then show ?thesis unfolding mid(3) contains_mk_interval
        using mid(1) v True word_le_pred_iff [of "l a" v] word_le_succ_iff [OF hm, of v]
        by (auto simp: contains_def)
    next
      case False
      then have "h a + 1 \<le> l a - 1"
        using hm mid(1) b(3) by unat_arith
      then show ?thesis unfolding mid(3) contains_mk_interval
        using mid(1) v False word_le_pred_iff [of "l a" v] word_le_succ_iff [OF hm, of v]
        by (auto simp: contains_def)
    qed
  qed
qed

lemma negate_twice:
  assumes "tight a" "negate a = Some n"
  shows "negate n = Some \<lparr>l = 0, h = uMaxInt (sz a), sz = 1, tight = False\<rparr>"
  using negate_not_tight [OF assms(2)] negate_tight_sz [OF assms]
  by (simp add: negate_def mk_interval_def)

text \<open>
  Claim C10. Whatever interval \<open>negate\<close> returns is not marked tight: every
  constructor call in it leaves \<open>tight\<close> at \<open>false\<close>.
\<close>

theorem negate_never_tight: "negate a = Some n \<Longrightarrow> tight n = False"
  by (auto simp: negate_def split: if_splits)

theorem negate_never_tight_witness:
  "negate \<lparr>l = 0, h = 5, sz = 8, tight = True\<rparr> = Some \<lparr>l = 6, h = 255, sz = 8, tight = False\<rparr> \<and>
   tight \<lparr>l = 6, h = 255, sz = 8, tight = False\<rparr> = False"
proof -
  have n: "negate \<lparr>l = 0, h = 5, sz = 8, tight = True\<rparr>
             = Some \<lparr>l = 6, h = 255, sz = 8, tight = False\<rparr>"
    by (simp add: negate_def is_full_def mk_interval_def uMaxInt_def mask_eq_exp_minus_1)
  from negate_never_tight [OF n] n show ?thesis by blast
qed

text \<open>
  Claim C7 fails on the code. The negation of a non-tight interval has the endpoints
  0 and \<open>uMaxInt sz\<close>, but its bit width is 1, not \<open>sz\<close>: the source calls the
  constructor with three arguments, so \<^verbatim>\<open>true\<close> is taken as the width. For a width
  above 1 the result breaks the invariant that the constructor asserts.
\<close>

theorem negate_non_tight_width:
  "\<not> tight a \<Longrightarrow> negate a = Some \<lparr>l = 0, h = uMaxInt (sz a), sz = 1, tight = False\<rparr>"
  by (simp add: negate_def mk_interval_def)

theorem negate_non_tight_width_witness:
  "negate \<lparr>l = 0, h = 5, sz = 8, tight = False\<rparr> = Some \<lparr>l = 0, h = 255, sz = 1, tight = False\<rparr> \<and>
   sz \<lparr>l = 0, h = 255, sz = 1, tight = False\<rparr> \<noteq> 8 \<and>
   \<not> invariant \<lparr>l = 0, h = 255, sz = 1, tight = False\<rparr>"
proof -
  have t: "\<not> tight \<lparr>l = 0, h = 5, sz = 8, tight = False\<rparr>" by simp
  have "uMaxInt 8 = 255" "uMaxInt 1 = 1"
    by (simp_all add: uMaxInt_def mask_eq_exp_minus_1)
  with negate_non_tight_width [OF t] show ?thesis
    by (simp add: invariant_def word_le_nat_alt)
qed

text \<open>The assertion of the constructor inside \<open>negate\<close>.\<close>

lemma negate_asserting_off: "negate_asserting False a = Inr (negate a)"
  by (simp add: negate_asserting_def split: option.splits)

lemma negate_asserting_tight:
  assumes "tight a" "invariant a"
  shows "negate_asserting assertions a = Inr (negate a)"
  using negate_tight_inv [OF assms] by (auto simp: negate_asserting_def split: option.splits)

lemma negate_asserting_non_tight:
  assumes "\<not> tight n" "1 < sz n" "sz n \<le> 64"
  shows "negate_asserting True n = Inl AssertionFailed"
proof -
  have "(2::int) ^ 1 < 2 ^ sz n" using assms(2) by (intro power_strict_increasing) simp_all
  then have "\<not> uMaxInt (sz n) \<le> uMaxInt 1"
    using assms(3) by (simp add: word_le_def uint_uMaxInt)
  then show ?thesis using assms(1)
    by (simp add: negate_asserting_def negate_def mk_interval_def invariant_def)
qed

text \<open>
  Claim C6, as amended. For a tight interval \<open>a\<close> that is not full and satisfies the
  invariant, \<open>negate\<close> succeeds, with assertions compiled in or out, and returns an
  interval of the same width that is not tight, satisfies the invariant and holds
  exactly the values of the width that are outside \<open>a\<close>. Negating that result does
  not give \<open>a\<close> back: whenever the second call returns an interval, its endpoints are
  0 and \<open>uMaxInt (sz a)\<close>, those of the full range, and \<open>a\<close> is not full. (Whether the
  second call returns, and the width and the tight flag of what it returns, are the
  matter of claim C7 and are left out.)
\<close>

theorem negate_twice_never_identity:
  assumes "tight a" "\<not> is_full a" "invariant a"
  shows "(\<exists>n. negate_asserting assertions a = Inr (Some n) \<and>
            \<not> tight n \<and> invariant n \<and> sz n = sz a \<and>
            (\<forall>v. v \<le> uMaxInt (sz a) \<longrightarrow> (contains n v \<longleftrightarrow> \<not> contains a v))) \<and>
         (\<forall>n m. negate_asserting assertions a = Inr (Some n) \<longrightarrow>
            negate_asserting assertions n = Inr (Some m) \<longrightarrow>
            l m = 0 \<and> h m = uMaxInt (sz a) \<and> \<not> interval_eq m a \<and> m \<noteq> a)"
proof -
  obtain n where n: "negate a = Some n"
    using assms(1,2) negate_None_iff [of a] by auto
  have na: "negate_asserting assertions a = Inr (Some n)"
    using negate_asserting_tight [OF assms(1,3)] n by simp
  have first: "\<not> tight n \<and> invariant n \<and> sz n = sz a \<and>
            (\<forall>v. v \<le> uMaxInt (sz a) \<longrightarrow> (contains n v \<longleftrightarrow> \<not> contains a v))"
    using negate_not_tight [OF n] negate_tight_inv [OF assms(1,3) n]
      negate_tight_sz [OF assms(1) n] negate_complement [OF assms(1,3) n] by auto
  have second: "l m = 0 \<and> h m = uMaxInt (sz a) \<and> \<not> interval_eq m a \<and> m \<noteq> a"
    if "negate_asserting assertions n = Inr (Some m)" for m
  proof -
    from that have "negate n = Some m"
      by (auto simp: negate_asserting_def split: option.splits if_splits)
    then have "l m = 0" "h m = uMaxInt (sz a)"
      using negate_twice [OF assms(1) n] by auto
    then show ?thesis using assms(2) by (auto simp: is_full_def interval_eq_def)
  qed
  show ?thesis using na first second by auto
qed

theorem negate_twice_never_identity_witness:
  "tight \<lparr>l = 0, h = 5, sz = 8, tight = True\<rparr> \<and>
   \<not> is_full \<lparr>l = 0, h = 5, sz = 8, tight = True\<rparr> \<and>
   invariant \<lparr>l = 0, h = 5, sz = 8, tight = True\<rparr> \<and>
   (\<exists>n. negate_asserting True \<lparr>l = 0, h = 5, sz = 8, tight = True\<rparr> = Inr (Some n) \<and>
        \<not> tight n \<and> sz n = 8)"
proof -
  let ?a = "\<lparr>l = 0, h = 5, sz = 8, tight = True\<rparr>"
  have p: "tight ?a" "\<not> is_full ?a" "invariant ?a"
    by (simp_all add: is_full_def invariant_def is_wrapped_def uMaxInt_def mask_eq_exp_minus_1)
  from negate_twice_never_identity [OF p, of True]
  have "\<exists>n. negate_asserting True ?a = Inr (Some n) \<and> \<not> tight n \<and> sz n = 8"
    by auto
  then show ?thesis using p by (intro conjI)
qed

text \<open>
  Claim C6 as stated fails: the tight interval \<open>[0,5]\<close> of width 8 negates to
  \<open>[6,255]\<close>, which is not tight. With assertions compiled in, negating that does not
  return; with assertions compiled out it returns an interval with the endpoints 0 and
  255, which is not \<open>[0,5]\<close>.
\<close>

theorem negate_twice_not_identity:
  "negate_asserting True \<lparr>l = 0, h = 5, sz = 8, tight = True\<rparr>
     = Inr (Some \<lparr>l = 6, h = 255, sz = 8, tight = False\<rparr>) \<and>
   negate_asserting True \<lparr>l = 6, h = 255, sz = 8, tight = False\<rparr> = Inl AssertionFailed \<and>
   negate_asserting False \<lparr>l = 0, h = 5, sz = 8, tight = True\<rparr>
     = Inr (Some \<lparr>l = 6, h = 255, sz = 8, tight = False\<rparr>) \<and>
   negate_asserting False \<lparr>l = 6, h = 255, sz = 8, tight = False\<rparr>
     = Inr (Some \<lparr>l = 0, h = 255, sz = 1, tight = False\<rparr>) \<and>
   \<lparr>l = 0, h = 255, sz = 1, tight = False\<rparr> \<noteq> \<lparr>l = 0, h = 5, sz = 8, tight = True\<rparr> \<and>
   \<not> interval_eq \<lparr>l = 0, h = 255, sz = 1, tight = False\<rparr> \<lparr>l = 0, h = 5, sz = 8, tight = True\<rparr>"
  by (simp add: negate_asserting_def negate_def is_full_def mk_interval_def uMaxInt_def
      mask_eq_exp_minus_1 interval_eq_def invariant_def is_wrapped_def word_le_nat_alt)

section \<open>The bound extractor\<close>

lemma of_nat_le_uMaxInt:
  assumes "r < 2 ^ w" "w \<le> 64"
  shows "(of_nat r :: uint64) \<le> uMaxInt w"
proof -
  have "(2::nat) ^ w \<le> 2 ^ 64"
    by (rule power_increasing) (use assms(2) in simp_all)
  then have "r < 2 ^ 64" using assms(1) by linarith
  then have "uint (of_nat r :: uint64) = int r"
    by (simp add: uint_nat unat_of_nat)
  moreover have "int r < 2 ^ w" using assms(1) by (metis of_nat_less_iff of_nat_numeral of_nat_power)
  ultimately show ?thesis using assms(2) by (simp add: le_uMaxInt_iff)
qed

lemma is_number_Some:
  assumes "is_number t = Some (n, w)" "well_sorted t"
  shows "is_numeral t \<and> get_sort t = BvSort w \<and> 0 < w \<and> w \<le> 64 \<and> n \<le> uMaxInt w \<and> val \<rho> t = n"
  using assms by (cases t) (auto split: if_splits simp: of_nat_le_uMaxInt)

lemma is_number_None:
  assumes "is_number t = None" "get_sort t = BvSort w" "w \<le> 64"
  shows "\<not> is_numeral t"
  using assms by (cases t) (auto split: if_splits)

lemma sign_bit_nonzero: "0 < w \<Longrightarrow> w \<le> 64 \<Longrightarrow> (2 ^ (w - Suc 0) :: uint64) \<noteq> 0"
  by simp

lemma sign_bit_le:
  assumes "0 < w" "w \<le> 64"
  shows "(2 ^ (w - Suc 0) :: uint64) \<le> uMaxInt w"
proof -
  have "(0 :: uint64) < 2 ^ (w - Suc 0)"
    using sign_bit_nonzero [OF assms] word_neq_0_conv by blast
  then have "uint (2 ^ (w - Suc 0) :: uint64) = 2 ^ (w - Suc 0)"
    by (rule uint_2p)
  moreover have "(2::int) ^ (w - Suc 0) < 2 ^ w"
    using assms by (simp add: power_strict_increasing)
  ultimately show ?thesis using assms(2) by (simp add: le_uMaxInt_iff)
qed

lemma sle_int:
  fixes x y q m :: int
  assumes "0 \<le> x" "0 \<le> y" "x < m" "y < m"
  shows "(if x < q then x else x - m) \<le> (if y < q then y else y - m) \<longleftrightarrow>
           (if x < q then x \<le> y \<and> y < q else y < q \<or> x \<le> y)"
    and "(if x < q then x else x - m) \<le> (if y < q then y else y - m) \<longleftrightarrow>
           (if q \<le> y then q \<le> x \<and> x \<le> y else x \<le> y \<or> q \<le> x)"
  using assms by (auto split: if_splits)

lemma sle_lower:
  assumes q: "(q :: uint64) \<noteq> 0" and v: "uint v < 2 ^ w" and n: "uint n < 2 ^ w"
  shows "(if n < q then uint n else uint n - 2 ^ w) \<le> (if v < q then uint v else uint v - 2 ^ w)
     \<longleftrightarrow> (if n \<le> q - 1 then n \<le> v \<and> v \<le> q - 1 else v \<le> q - 1 \<or> n \<le> v)"
  using sle_int(1) [of "uint n" "uint v" "2 ^ w" "uint q"] v n
  unfolding word_le_pred_iff [OF q]
  by (simp add: word_le_def word_less_def)

lemma sle_upper:
  assumes v: "uint (v :: uint64) < 2 ^ w" and n: "uint (n :: uint64) < 2 ^ w"
  shows "(if v < q then uint v else uint v - 2 ^ w) \<le> (if n < q then uint n else uint n - 2 ^ w)
     \<longleftrightarrow> (if q \<le> n then q \<le> v \<and> v \<le> n else v \<le> n \<or> q \<le> v)"
  using sle_int(2) [of "uint v" "uint n" "2 ^ w" "uint q"] v n
  by (simp add: word_le_def word_less_def)

lemma self_in_vars: "\<not> is_numeral t \<Longrightarrow> t \<in> get_expr_vars t"
  by (cases t) auto

lemma fits_self:
  "fits \<rho> t \<Longrightarrow> k \<in> get_expr_vars t \<Longrightarrow> get_sort k = BvSort w \<Longrightarrow> \<rho> k \<le> uMaxInt w"
  by (auto simp: fits_def split: expr_sort.splits)

lemma val_non_numeral: "\<not> is_numeral t \<Longrightarrow> val \<rho> t = \<rho> t"
  by (cases t) auto

lemma is_bound_entry:
  assumes "is_bound e = Some (k, c)" "well_sorted e"
  shows "entry_ok k c \<and> tight c \<and> k \<in> get_expr_vars e"
proof (cases e)
  case (BvUle s t)
  then show ?thesis using assms is_number_Some [of s _ _ undefined] is_number_Some [of t _ _ undefined]
       is_number_None [of s] self_in_vars [of s] self_in_vars [of t]
    by (auto simp: entry_ok_def split: option.splits if_splits intro!: invariant_mk_interval)
next
  case (BvSle s t)
  then show ?thesis using assms is_number_Some [of s _ _ undefined] is_number_Some [of t _ _ undefined]
       is_number_None [of s] self_in_vars [of s] self_in_vars [of t]
    by (auto simp: entry_ok_def sign_bit_le sign_bit_nonzero split: option.splits if_splits intro!: invariant_mk_interval word_pred_le)
next
  case (Eq s t)
  then show ?thesis using assms is_number_Some [of s _ _ undefined] is_number_Some [of t _ _ undefined]
       is_number_None [of s] self_in_vars [of s] self_in_vars [of t]
    by (auto simp: entry_ok_def split: option.splits if_splits intro!: invariant_mk_interval)
qed (use assms in auto)


lemma contains_sle_left:
  assumes "0 < w" "w \<le> 64" "n \<le> uMaxInt w" "v \<le> uMaxInt w"
  shows "contains (mk_interval n (2 ^ (w - Suc 0) - 1) w True) v \<longleftrightarrow> sval w n \<le> sval w v"
  using sle_lower [OF sign_bit_nonzero [OF assms(1,2)], of v w n] assms
  by (simp add: contains_mk_interval le_uMaxInt_iff sval_def)

lemma contains_sle_right:
  assumes "0 < w" "w \<le> 64" "n \<le> uMaxInt w" "v \<le> uMaxInt w"
  shows "contains (mk_interval (2 ^ (w - Suc 0)) n w True) v \<longleftrightarrow> sval w v \<le> sval w n"
  using sle_upper [of v w n "2 ^ (w - Suc 0)"] assms
  by (simp add: contains_mk_interval le_uMaxInt_iff sval_def)

lemma is_bound_exact:
  assumes b: "is_bound e = Some (k, c)" and ws: "well_sorted e" and f: "fits \<rho> e"
  shows "contains c (val \<rho> k) \<longleftrightarrow> holds \<rho> \<beta> e"
proof -
  from is_bound_entry [OF b ws] have k: "\<not> is_numeral k" "get_sort k = BvSort (sz c)"
    "k \<in> get_expr_vars e" by (auto simp: entry_ok_def)
  then have v: "val \<rho> k = \<rho> k" "\<rho> k \<le> uMaxInt (sz c)"
    using fits_self [OF f k(3,2)] by (simp_all add: val_non_numeral)
  show ?thesis
  proof (cases e)
    case (BvUle s t)
    then show ?thesis
      using b ws v is_number_Some [of s _ _ \<rho>] is_number_Some [of t _ _ \<rho>]
      by (auto simp: contains_mk_interval split: option.splits if_splits)
  next
    case (BvSle s t)
    then show ?thesis
      using b ws v is_number_Some [of s _ _ \<rho>] is_number_Some [of t _ _ \<rho>]
      by (auto split: option.splits if_splits simp: contains_sle_left contains_sle_right)
  next
    case (Eq s t)
    then show ?thesis
      using b ws v is_number_Some [of s _ _ \<rho>] is_number_Some [of t _ _ \<rho>]
      by (auto simp: contains_mk_interval split: option.splits if_splits)
  qed (use b in auto)
qed

lemma is_bound_recognised:
  assumes "w \<le> 64" "\<not> is_numeral x"
  shows "is_bound (BvUle (BvNumeral r w) x) \<noteq> None" "is_bound (BvUle x (BvNumeral r w)) \<noteq> None"
    "is_bound (BvSle (BvNumeral r w) x) \<noteq> None" "is_bound (BvSle x (BvNumeral r w)) \<noteq> None"
    "is_bound (Eq (BvNumeral r w) x) \<noteq> None" "is_bound (Eq x (BvNumeral r w)) \<noteq> None"
  using assms by (cases x; simp)+

text \<open>
  Claim C3. For a well-sorted atom from which \<open>is_bound\<close> extracts the term \<open>k\<close> and
  the interval \<open>c\<close> (an unsigned or signed less-or-equal or an equality with a numeral
  of at most 64 bits on one side), and an assignment that gives the subterms values of
  their widths and satisfies the atom, \<open>c\<close> contains the value of \<open>k\<close>.
\<close>

theorem is_bound_contains:
  assumes "well_sorted e" "is_bound e = Some (k, c)" "fits \<rho> e" "holds \<rho> \<beta> e"
  shows "contains c (val \<rho> k)"
  using is_bound_exact [OF assms(2,1,3)] assms(4) by simp

theorem is_bound_contains_witness:
  "well_sorted (BvSle (App ''x'' (BvSort 8) []) (BvNumeral 5 8)) \<and>
   is_bound (BvSle (App ''x'' (BvSort 8) []) (BvNumeral 5 8))
     = Some (App ''x'' (BvSort 8) [], \<lparr>l = 128, h = 5, sz = 8, tight = True\<rparr>) \<and>
   fits (\<lambda>t. 200) (BvSle (App ''x'' (BvSort 8) []) (BvNumeral 5 8)) \<and>
   holds (\<lambda>t. 200) (\<lambda>t. False) (BvSle (App ''x'' (BvSort 8) []) (BvNumeral 5 8)) \<and>
   contains \<lparr>l = 128, h = 5, sz = 8, tight = True\<rparr> 200"
proof -
  let ?e = "BvSle (App ''x'' (BvSort 8) []) (BvNumeral 5 8)"
  have ws: "well_sorted ?e" by simp
  have b: "is_bound ?e = Some (App ''x'' (BvSort 8) [], \<lparr>l = 128, h = 5, sz = 8, tight = True\<rparr>)"
    by (simp add: mk_interval_def)
  have f: "fits (\<lambda>t. 200) ?e"
    by (simp add: fits_def uMaxInt_def mask_eq_exp_minus_1)
  have hd: "holds (\<lambda>t. 200) (\<lambda>t. False) ?e"
    by (simp add: sval_def)
  from is_bound_contains [OF ws b f hd] ws b f hd show ?thesis by simp
qed

section \<open>The bounds context\<close>

lemma strip_not_holds:
  "strip_not t s = (t', s') \<Longrightarrow> (holds \<rho> \<beta> t \<noteq> s) = (holds \<rho> \<beta> t' \<noteq> s')"
  by (induction t s rule: strip_not.induct) auto

lemma strip_not_ws: "strip_not t s = (t', s') \<Longrightarrow> well_sorted t \<Longrightarrow> well_sorted t'"
  by (induction t s rule: strip_not.induct) auto

lemma strip_not_vars: "strip_not t s = (t', s') \<Longrightarrow> get_expr_vars t' \<subseteq> get_expr_vars t"
  by (induction t s rule: strip_not.induct) auto

lemma strip_not_fits: "strip_not t s = (t', s') \<Longrightarrow> fits \<rho> t \<Longrightarrow> fits \<rho> t'"
  using strip_not_vars [of t s t' s'] by (auto simp: fits_def)

lemma strip_not_bv: "get_sort t \<noteq> BoolSort \<Longrightarrow> strip_not t s = (t, s)"
  by (cases t) auto

text \<open>The interval that \<open>assert_expr\<close> works with after the negation step.\<close>

lemma asserted_interval_entry:
  assumes b: "is_bound t = Some (k, b0)" and ws: "well_sorted t"
    and nb: "\<not> sign \<and> nb = b0 \<or> sign \<and> negate b0 = Some nb \<or> sign \<and> negate b0 = None \<and> nb = b0"
  shows "entry_ok k nb"
  using is_bound_entry [OF b ws] nb negate_tight_inv [of b0 nb] negate_tight_sz [of b0 nb]
  by (auto simp: entry_ok_def)

lemma asserted_interval_sound:
  assumes b: "is_bound t = Some (k, b0)" and ws: "well_sorted t"
    and nb: "\<not> sign \<and> nb = b0 \<or> sign \<and> negate b0 = Some nb \<or> sign \<and> negate b0 = None \<and> nb = b0"
    and f: "fits \<rho> t" and hd: "holds \<rho> \<beta> t \<noteq> sign"
  shows "contains nb (val \<rho> k)"
proof -
  from is_bound_entry [OF b ws] have e: "entry_ok k b0" "tight b0" "k \<in> get_expr_vars t"
    by auto
  then have v: "val \<rho> k \<le> uMaxInt (sz b0)"
    using fits_self [OF f e(3)] by (simp add: entry_ok_def val_non_numeral)
  note ex = is_bound_exact [OF b ws f, of \<beta>]
  from nb consider (pos) "\<not> sign" "nb = b0" | (neg) "sign" "negate b0 = Some nb"
    | (full) "sign" "negate b0 = None" "nb = b0" by auto
  then show ?thesis
  proof cases
    case pos
    then show ?thesis using ex hd by simp
  next
    case neg
    have "invariant b0" using e(1) by (simp add: entry_ok_def)
    from negate_complement [OF e(2) this neg(2) v] show ?thesis using ex hd neg(1) by simp
  next
    case full
    then have "is_full b0" by (simp add: negate_None_iff)
    then show ?thesis using v full by (simp add: contains_full)
  qed
qed

lemma assert_expr_True:
  assumes a: "assert_expr fatal st t0 sign0 = Inr (True, st')"
    and s: "strip_not t0 sign0 = (t, sign)"
  shows "st' = st \<or>
    (\<exists>k b0 nb c u. is_bound t = Some (k, b0) \<and>
       (\<not> sign \<and> nb = b0 \<or> sign \<and> negate b0 = Some nb \<or> sign \<and> negate b0 = None \<and> nb = b0) \<and>
       st' = st\<lparr>m_scopes := m_scopes st @ [u], m_bound := (m_bound st)(k \<mapsto> c)\<rparr> \<and>
       (m_bound st k = None \<and> c = nb \<and> u = \<lparr>undo_e = k, undo_b = None, undo_fresh = True\<rparr> \<or>
        (\<exists>old. m_bound st k = Some old \<and> intersect old nb = Some c \<and> \<not> interval_eq old c \<and>
           u = \<lparr>undo_e = k, undo_b = Some old, undo_fresh = False\<rparr>)))"
  using a s unfolding assert_expr_def
  by (auto split: option.splits if_splits sum.splits prod.splits)


lemma assert_expr_False:
  assumes a: "assert_expr fatal st t0 sign0 = Inr (False, st')"
    and s: "strip_not t0 sign0 = (t, sign)"
  shows "st' = st \<and>
    (\<exists>k b0 nb old. is_bound t = Some (k, b0) \<and>
       (\<not> sign \<and> nb = b0 \<or> sign \<and> negate b0 = Some nb \<or> sign \<and> negate b0 = None \<and> nb = b0) \<and>
       m_bound st k = Some old \<and> intersect old nb = None)"
  using a s unfolding assert_expr_def
  by (auto split: option.splits if_splits sum.splits prod.splits)

lemma assert_expr_Inl:
  assumes s: "strip_not t0 sign0 = (t, sign)"
  shows "assert_expr fatal st t0 sign0 = Inl x \<longleftrightarrow>
    x = VerifyFailed \<and> fatal \<and> sign \<and> (\<exists>k b0. is_bound t = Some (k, b0) \<and> negate b0 = None)"
  using s unfolding assert_expr_def
  by (auto split: option.splits if_splits sum.splits prod.splits)

lemma ctx_inv_init: "ctx_inv (bv_bounds_simplifier p)"
  by (simp add: ctx_inv_def bv_bounds_simplifier_def)

lemma assert_expr_inv:
  assumes i: "ctx_inv st" and ws: "well_sorted t0"
    and a: "assert_expr fatal st t0 sign0 = Inr (r, st')"
  shows "ctx_inv st'"
proof -
  obtain t sign where s: "strip_not t0 sign0 = (t, sign)" by fastforce
  note wt = strip_not_ws [OF s ws]
  show ?thesis
  proof (cases r)
    case False
    with a have "assert_expr fatal st t0 sign0 = Inr (False, st')" by simp
    from assert_expr_False [OF this s] i show ?thesis by simp
  next
    case True
    with a have "assert_expr fatal st t0 sign0 = Inr (True, st')" by simp
    from assert_expr_True [OF this s] consider (same) "st' = st"
      | (upd) k b0 nb c u where "is_bound t = Some (k, b0)"
        "\<not> sign \<and> nb = b0 \<or> sign \<and> negate b0 = Some nb \<or> sign \<and> negate b0 = None \<and> nb = b0"
        "st' = st\<lparr>m_scopes := m_scopes st @ [u], m_bound := (m_bound st)(k \<mapsto> c)\<rparr>"
        "m_bound st k = None \<and> c = nb \<and> u = \<lparr>undo_e = k, undo_b = None, undo_fresh = True\<rparr> \<or>
        (\<exists>old. m_bound st k = Some old \<and> intersect old nb = Some c \<and> \<not> interval_eq old c \<and>
           u = \<lparr>undo_e = k, undo_b = Some old, undo_fresh = False\<rparr>)"
      by blast
    then show ?thesis
    proof cases
      case same
      then show ?thesis using i by simp
    next
      case upd
      note en = asserted_interval_entry [OF upd(1) wt upd(2)]
      from upd(4) have "entry_ok k c \<and> undo_ok u"
      proof
        assume "m_bound st k = None \<and> c = nb \<and> u = \<lparr>undo_e = k, undo_b = None, undo_fresh = True\<rparr>"
        then show ?thesis using en by (simp add: undo_ok_def)
      next
        assume "\<exists>old. m_bound st k = Some old \<and> intersect old nb = Some c \<and> \<not> interval_eq old c \<and>
           u = \<lparr>undo_e = k, undo_b = Some old, undo_fresh = False\<rparr>"
        then obtain old where o: "m_bound st k = Some old" "intersect old nb = Some c"
          "u = \<lparr>undo_e = k, undo_b = Some old, undo_fresh = False\<rparr>" by blast
        then have eo: "entry_ok k old" using i by (simp add: ctx_inv_def)
        then have "sz old = sz nb" "invariant old" "invariant nb"
          using en by (auto simp: entry_ok_def)
        from intersect_inv [OF this o(2)] eo o(3) show ?thesis
          by (auto simp: entry_ok_def undo_ok_def)
      qed
      then show ?thesis using i upd(3) by (auto simp: ctx_inv_def)
    qed
  qed
qed

lemma undo_loop_inv:
  assumes "list_all undo_ok us" "\<forall>k c. m k = Some c \<longrightarrow> entry_ok k c" "undo_loop us m = Inr m'"
  shows "\<forall>k c. m' k = Some c \<longrightarrow> entry_ok k c"
  using assms
proof (induction us arbitrary: m)
  case Nil
  then show ?case by simp
next
  case (Cons u us)
  from Cons.prems(1) have us: "list_all undo_ok us" by simp
  show ?case
  proof (cases "undo_fresh u")
    case True
    with Cons.prems have 1: "undo_loop us (m(undo_e u := None)) = Inr m'" by simp
    have 2: "\<forall>k c. (m(undo_e u := None)) k = Some c \<longrightarrow> entry_ok k c"
      using Cons.prems(2) by simp
    show ?thesis by (rule Cons.IH [OF us 2 1])
  next
    case False
    with Cons.prems obtain old where o: "undo_b u = Some old" "entry_ok (undo_e u) old"
      by (auto simp: undo_ok_def split: option.splits)
    with False Cons.prems have 1: "undo_loop us (m(undo_e u \<mapsto> old)) = Inr m'" by simp
    have 2: "\<forall>k c. (m(undo_e u \<mapsto> old)) k = Some c \<longrightarrow> entry_ok k c"
      using Cons.prems(2) o(2) by simp
    show ?thesis by (rule Cons.IH [OF us 2 1])
  qed
qed

lemma list_all_take: "list_all P xs \<Longrightarrow> list_all P (take n xs)"
  by (metis append_take_drop_id list_all_append)

lemma list_all_drop: "list_all P xs \<Longrightarrow> list_all P (drop n xs)"
  by (metis append_take_drop_id list_all_append)

lemma pop_inv:
  assumes i: "ctx_inv st" and p: "pop n st = Inr st'"
  shows "ctx_inv st'"
proof (cases "m_scopes st = [] \<or> length (m_scopes st) - n = 0")
  case True
  then show ?thesis using i p
    by (auto simp: pop_def ctx_inv_def Let_def split: if_splits)
next
  case False
  let ?tg = "length (m_scopes st) - n"
  from False p obtain m where m: "undo_loop (rev (drop ?tg (m_scopes st))) (m_bound st) = Inr m"
    and st': "st' = st\<lparr>m_bound := m, m_scopes := take ?tg (m_scopes st)\<rparr>"
    by (auto simp: pop_def Let_def split: if_splits sum.splits)
  have "list_all undo_ok (rev (drop ?tg (m_scopes st)))"
    using i by (simp add: ctx_inv_def list_all_drop)
  from undo_loop_inv [OF this _ m] i have "\<forall>k c. m k = Some c \<longrightarrow> entry_ok k c"
    by (simp add: ctx_inv_def)
  moreover have "take ?tg (m_scopes st) \<noteq> []" using False by auto
  ultimately show ?thesis using i st' by (simp add: ctx_inv_def list_all_take)
qed

lemma reachable_inv: "reachable fatal st \<Longrightarrow> ctx_inv st"
  by (induction rule: reachable.induct) (auto intro: ctx_inv_init assert_expr_inv pop_inv)


lemma assert_expr_sound:
  assumes i: "ctx_inv st" and ws: "well_sorted t0" and f: "fits \<rho> t0"
    and hd: "holds \<rho> \<beta> t0 \<noteq> sign0"
    and snd: "\<forall>k c. m_bound st k = Some c \<longrightarrow> contains c (val \<rho> k)"
    and a: "assert_expr fatal st t0 sign0 = Inr (True, st')"
  shows "\<forall>k c. m_bound st' k = Some c \<longrightarrow> contains c (val \<rho> k)"
proof -
  obtain t sign where s: "strip_not t0 sign0 = (t, sign)" by fastforce
  note wt = strip_not_ws [OF s ws] and ft = strip_not_fits [OF s f]
  have ht: "holds \<rho> \<beta> t \<noteq> sign" using strip_not_holds [OF s] hd by simp
  from assert_expr_True [OF a s] consider (same) "st' = st"
    | (upd) k b0 nb c u where "is_bound t = Some (k, b0)"
      "\<not> sign \<and> nb = b0 \<or> sign \<and> negate b0 = Some nb \<or> sign \<and> negate b0 = None \<and> nb = b0"
      "st' = st\<lparr>m_scopes := m_scopes st @ [u], m_bound := (m_bound st)(k \<mapsto> c)\<rparr>"
      "m_bound st k = None \<and> c = nb \<and> u = \<lparr>undo_e = k, undo_b = None, undo_fresh = True\<rparr> \<or>
      (\<exists>old. m_bound st k = Some old \<and> intersect old nb = Some c \<and> \<not> interval_eq old c \<and>
         u = \<lparr>undo_e = k, undo_b = Some old, undo_fresh = False\<rparr>)"
    by blast
  then show ?thesis
  proof cases
    case same
    then show ?thesis using snd by simp
  next
    case upd
    note en = asserted_interval_entry [OF upd(1) wt upd(2)]
    note cn = asserted_interval_sound [OF upd(1) wt upd(2) ft ht]
    from upd(4) have "contains c (val \<rho> k)"
    proof
      assume "m_bound st k = None \<and> c = nb \<and> u = \<lparr>undo_e = k, undo_b = None, undo_fresh = True\<rparr>"
      then show ?thesis using cn by simp
    next
      assume "\<exists>old. m_bound st k = Some old \<and> intersect old nb = Some c \<and> \<not> interval_eq old c \<and>
         u = \<lparr>undo_e = k, undo_b = Some old, undo_fresh = False\<rparr>"
      then obtain old where o: "m_bound st k = Some old" "intersect old nb = Some c" by blast
      then have "entry_ok k old" "contains old (val \<rho> k)" using i snd by (simp_all add: ctx_inv_def)
      then have "sz old = sz nb" using en by (auto simp: entry_ok_def)
      from intersect_sound [OF this o(2) \<open>contains old (val \<rho> k)\<close> cn] show ?thesis .
    qed
    then show ?thesis using snd upd(3) by simp
  qed
qed

lemma assert_all_sound:
  assumes "ctx_inv st" "\<forall>k c. m_bound st k = Some c \<longrightarrow> contains c (val \<rho> k)"
    and "assert_all fatal st fs = Some st'"
    and "list_all (\<lambda>f. well_sorted (fst f) \<and> fits \<rho> (fst f) \<and> fact_holds \<rho> \<beta> f) fs"
  shows "\<forall>k c. m_bound st' k = Some c \<longrightarrow> contains c (val \<rho> k)"
  using assms
proof (induction fs arbitrary: st)
  case Nil
  then show ?case by simp
next
  case (Cons f fs)
  obtain t sign where fp: "f = (t, sign)" by fastforce
  with Cons.prems(3) obtain st1 where a: "assert_expr fatal st t sign = Inr (True, st1)"
    and r: "assert_all fatal st1 fs = Some st'"
    by (auto split: sum.splits bool.splits prod.splits)
  from Cons.prems(4) fp have p: "well_sorted t" "fits \<rho> t" "holds \<rho> \<beta> t \<noteq> sign"
    and ps: "list_all (\<lambda>f. well_sorted (fst f) \<and> fits \<rho> (fst f) \<and> fact_holds \<rho> \<beta> f) fs"
    by (simp_all add: fact_holds_def)
  have 1: "ctx_inv st1" using assert_expr_inv [OF Cons.prems(1) p(1) a] .
  have 2: "\<forall>k c. m_bound st1 k = Some c \<longrightarrow> contains c (val \<rho> k)"
    using assert_expr_sound [OF Cons.prems(1) p Cons.prems(2) a] .
  show ?case by (rule Cons.IH [OF 1 2 r ps])
qed

lemma undo_loop_append:
  "undo_loop (us @ vs) m = (case undo_loop us m of Inl x \<Rightarrow> Inl x | Inr m' \<Rightarrow> undo_loop vs m')"
  by (induction us arbitrary: m) (auto split: option.splits)

lemma assert_expr_undo:
  assumes a: "assert_expr fatal st t0 sign0 = Inr (True, st')"
  shows "m_propagate_eq st' = m_propagate_eq st \<and>
    (\<exists>us. length us \<le> 1 \<and> m_scopes st' = m_scopes st @ us \<and> undo_loop us (m_bound st') = Inr (m_bound st))"
proof -
  obtain t sign where s: "strip_not t0 sign0 = (t, sign)" by fastforce
  from assert_expr_True [OF a s] consider (same) "st' = st"
    | (upd) k c u where
      "st' = st\<lparr>m_scopes := m_scopes st @ [u], m_bound := (m_bound st)(k \<mapsto> c)\<rparr>"
      "m_bound st k = None \<and> u = \<lparr>undo_e = k, undo_b = None, undo_fresh = True\<rparr> \<or>
      (\<exists>old. m_bound st k = Some old \<and> u = \<lparr>undo_e = k, undo_b = Some old, undo_fresh = False\<rparr>)"
    by blast
  then show ?thesis
  proof cases
    case same
    then have "m_scopes st' = m_scopes st @ []" "undo_loop [] (m_bound st') = Inr (m_bound st)"
      by simp_all
    then show ?thesis using same by (intro conjI exI [of _ "[]"]) simp_all
  next
    case upd
    have "undo_loop [u] (m_bound st') = Inr (m_bound st)"
      using upd by (auto simp: fun_upd_idem)
    then show ?thesis using upd(1) by (intro conjI exI [of _ "[u]"]) simp_all
  qed
qed

lemma assert_all_undo:
  assumes "assert_all fatal st fs = Some st'"
  shows "m_propagate_eq st' = m_propagate_eq st \<and>
    (\<exists>us. m_scopes st' = m_scopes st @ us \<and> undo_loop (rev us) (m_bound st') = Inr (m_bound st))"
  using assms
proof (induction fs arbitrary: st)
  case Nil
  then show ?case by simp
next
  case (Cons f fs)
  obtain t sign where fp: "f = (t, sign)" by fastforce
  with Cons.prems obtain st1 where a: "assert_expr fatal st t sign = Inr (True, st1)"
    and r: "assert_all fatal st1 fs = Some st'"
    by (auto split: sum.splits bool.splits prod.splits)
  from assert_expr_undo [OF a] obtain us where us: "m_propagate_eq st1 = m_propagate_eq st"
    "m_scopes st1 = m_scopes st @ us" "undo_loop us (m_bound st1) = Inr (m_bound st)"
    "length us \<le> 1" by blast
  from Cons.IH [OF r] obtain vs where vs: "m_propagate_eq st' = m_propagate_eq st1"
    "m_scopes st' = m_scopes st1 @ vs" "undo_loop (rev vs) (m_bound st') = Inr (m_bound st1)"
    by blast
  have "rev us = us" using us(4) by (cases us) auto
  then have "undo_loop (rev (us @ vs)) (m_bound st') = Inr (m_bound st)"
    using us(3) vs(3) by (simp add: undo_loop_append)
  then show ?case using us(1,2) vs(1,2) by (intro conjI exI [of _ "us @ vs"]) simp_all
qed

lemma pop_restores_aux:
  assumes e: "m_scopes st = [] \<longrightarrow> m_bound st = Map.empty"
    and a: "assert_all fatal st fs = Some st'"
  shows "scope_level st \<le> scope_level st' \<and> pop (scope_level st' - scope_level st) st' = Inr st"
proof -
  from assert_all_undo [OF a] obtain us where us: "m_propagate_eq st' = m_propagate_eq st"
    "m_scopes st' = m_scopes st @ us" "undo_loop (rev us) (m_bound st') = Inr (m_bound st)"
    by blast
  have lv: "scope_level st' - scope_level st = length us" "scope_level st \<le> scope_level st'"
    using us(2) by (simp_all add: scope_level_def)
  have "pop (length us) st' = Inr st"
  proof (cases "m_scopes st' = []")
    case True
    then have "us = []" "m_scopes st = []" using us(2) by simp_all
    then have "m_bound st' = m_bound st" using us(3) by simp
    then have "st' = st" using us(1,2) \<open>us = []\<close> by simp
    then show ?thesis using True by (simp add: pop_def)
  next
    case False
    show ?thesis
    proof (cases "m_scopes st = []")
      case True
      then have "st'\<lparr>m_bound := Map.empty, m_scopes := []\<rparr> = st"
        using e us(1) by simp
      then show ?thesis using False True us(2) by (simp add: pop_def)
    next
      case ne: False
      have "st'\<lparr>m_bound := m_bound st, m_scopes := m_scopes st\<rparr> = st"
        using us(1) by simp
      then show ?thesis using False ne us(2,3) by (simp add: pop_def)
    qed
  qed
  then show ?thesis using lv by simp
qed


text \<open>Unfolding the definitions on concrete inputs.\<close>

lemmas eval_defs = assert_expr_def bv_bounds_simplifier_def mk_interval_def negate_def
  is_full_def is_wrapped_def interval_eq_def is_singleton_interval_def implies_interval_def
  uMaxInt_def mask_eq_exp_minus_1 intersect.simps

text \<open>
  Claim C1. Start from a newly constructed simplifier and run a sequence of
  \<open>assert_expr\<close> calls on well-sorted terms that all return \<open>true\<close>. For every
  fixed-width assignment under which all the asserted facts hold, every interval in the
  bound map contains the value that the assignment gives to its key.
\<close>

theorem bound_map_sound:
  assumes "assert_all fatal (bv_bounds_simplifier p) fs = Some st"
    and "list_all (\<lambda>f. well_sorted (fst f) \<and> fits \<rho> (fst f) \<and> fact_holds \<rho> \<beta> f) fs"
    and "m_bound st k = Some c"
  shows "contains c (val \<rho> k)"
  using assert_all_sound [OF ctx_inv_init _ assms(1,2)] assms(3)
  by (simp add: bv_bounds_simplifier_def)

theorem bound_map_sound_witness:
  "assert_all False (bv_bounds_simplifier False)
     [(BvUle (App ''x'' (BvSort 8) []) (BvNumeral 5 8), False),
      (NotE (BvUle (App ''x'' (BvSort 8) []) (BvNumeral 2 8)), False)] \<noteq> None \<and>
   list_all (\<lambda>f. well_sorted (fst f) \<and> fits (\<lambda>t. 3) (fst f) \<and> fact_holds (\<lambda>t. 3) (\<lambda>t. False) f)
     [(BvUle (App ''x'' (BvSort 8) []) (BvNumeral 5 8), False),
      (NotE (BvUle (App ''x'' (BvSort 8) []) (BvNumeral 2 8)), False)] \<and>
   m_bound (the (assert_all False (bv_bounds_simplifier False)
     [(BvUle (App ''x'' (BvSort 8) []) (BvNumeral 5 8), False),
      (NotE (BvUle (App ''x'' (BvSort 8) []) (BvNumeral 2 8)), False)])) (App ''x'' (BvSort 8) [])
     = Some \<lparr>l = 3, h = 5, sz = 8, tight = False\<rparr> \<and>
   contains \<lparr>l = 3, h = 5, sz = 8, tight = False\<rparr> 3"
proof -
  let ?x = "App ''x'' (BvSort 8) []"
  let ?fs = "[(BvUle ?x (BvNumeral 5 8), False), (NotE (BvUle ?x (BvNumeral 2 8)), False)]"
  let ?st = "the (assert_all False (bv_bounds_simplifier False) ?fs)"
  have ne: "assert_all False (bv_bounds_simplifier False) ?fs \<noteq> None"
    by (simp add: eval_defs)
  then have a: "assert_all False (bv_bounds_simplifier False) ?fs = Some ?st"
    by simp
  have f: "list_all (\<lambda>f. well_sorted (fst f) \<and> fits (\<lambda>t. 3) (fst f) \<and> fact_holds (\<lambda>t. 3) (\<lambda>t. False) f) ?fs"
    by (simp add: fits_def fact_holds_def uMaxInt_def mask_eq_exp_minus_1)
  have m: "m_bound ?st ?x = Some \<lparr>l = 3, h = 5, sz = 8, tight = False\<rparr>"
    by (simp add: eval_defs)
  from bound_map_sound [OF a f m] have c: "contains \<lparr>l = 3, h = 5, sz = 8, tight = False\<rparr> 3"
    by simp
  show ?thesis using ne f m c by (intro conjI)
qed

text \<open>
  Claim C5. From any reachable state, a sequence of \<open>assert_expr\<close> calls that all
  return \<open>true\<close> only adds scope records (none for an assertion that teaches nothing
  new or from which no bound is extracted), and popping as many scopes as were added
  gives back the state before the sequence: the same bound map and the same scope stack.
\<close>

theorem pop_restores:
  assumes "reachable fatal st" "assert_all fatal st fs = Some st'"
  shows "scope_level st \<le> scope_level st' \<and> pop (scope_level st' - scope_level st) st' = Inr st"
  using pop_restores_aux [OF _ assms(2)] reachable_inv [OF assms(1)]
  by (simp add: ctx_inv_def)

theorem pop_restores_witness:
  "reachable False (bv_bounds_simplifier False) \<and>
   assert_all False (bv_bounds_simplifier False)
     [(BvUle (App ''x'' (BvSort 8) []) (BvNumeral 5 8), False),
      (BvUle (App ''x'' (BvSort 8) []) (BvNumeral 5 8), False),
      (App ''p'' BoolSort [], True),
      (BvUle (BvNumeral 2 8) (App ''x'' (BvSort 8) []), False)] \<noteq> None \<and>
   scope_level (the (assert_all False (bv_bounds_simplifier False)
     [(BvUle (App ''x'' (BvSort 8) []) (BvNumeral 5 8), False),
      (BvUle (App ''x'' (BvSort 8) []) (BvNumeral 5 8), False),
      (App ''p'' BoolSort [], True),
      (BvUle (BvNumeral 2 8) (App ''x'' (BvSort 8) []), False)])) = 2 \<and>
   pop 2 (the (assert_all False (bv_bounds_simplifier False)
     [(BvUle (App ''x'' (BvSort 8) []) (BvNumeral 5 8), False),
      (BvUle (App ''x'' (BvSort 8) []) (BvNumeral 5 8), False),
      (App ''p'' BoolSort [], True),
      (BvUle (BvNumeral 2 8) (App ''x'' (BvSort 8) []), False)]))
     = Inr (bv_bounds_simplifier False)"
proof -
  let ?x = "App ''x'' (BvSort 8) []"
  let ?fs = "[(BvUle ?x (BvNumeral 5 8), False), (BvUle ?x (BvNumeral 5 8), False),
              (App ''p'' BoolSort [], True), (BvUle (BvNumeral 2 8) ?x, False)]"
  let ?st = "the (assert_all False (bv_bounds_simplifier False) ?fs)"
  have r: "reachable False (bv_bounds_simplifier False)"
    by (rule reachable.constructed)
  have ne: "assert_all False (bv_bounds_simplifier False) ?fs \<noteq> None"
    by (simp add: eval_defs)
  then have a: "assert_all False (bv_bounds_simplifier False) ?fs = Some ?st"
    by simp
  have lv: "scope_level ?st = 2" "scope_level (bv_bounds_simplifier False) = 0"
    by (simp_all add: eval_defs scope_level_def)
  from pop_restores [OF r a] lv have p: "pop 2 ?st = Inr (bv_bounds_simplifier False)"
    by simp
  show ?thesis using r ne lv(1) p by (intro conjI)
qed


lemma strip_not_key:
  assumes "ctx_inv st" "m_bound st t = Some c"
  shows "strip_not t s = (t, s) \<and> \<not> is_numeral t \<and> \<not> is_bool t"
  using assms strip_not_bv [of t s] by (auto simp: ctx_inv_def entry_ok_def is_bool_def)

lemma may_simplify_sound_aux:
  assumes i: "ctx_inv st" and m: "may_simplify st t0 = Inr False"
  shows "simplify st t0 = Inr None"
proof -
  obtain t sign where s: "strip_not t0 False = (t, sign)" by fastforce
  have nokey: "\<not> (\<exists>c. m_bound st t0 = Some c \<and> is_singleton_interval c)"
  proof
    assume "\<exists>c. m_bound st t0 = Some c \<and> is_singleton_interval c"
    then obtain c where c: "m_bound st t0 = Some c" "is_singleton_interval c" by blast
    from strip_not_key [OF i c(1), of False] s have "t = t0" "\<not> is_numeral t0" by simp_all
    then have "t0 \<in> get_expr_vars t" using self_in_vars by simp
    with c m s \<open>\<not> is_numeral t0\<close> show False
      by (auto simp: may_simplify_def split: if_splits)
  qed
  then have first: "(case m_bound st t0 of Some c \<Rightarrow> if is_singleton_interval c then Some c else None
      | None \<Rightarrow> None) = None"
    by (auto split: option.splits)
  show ?thesis
  proof (cases "is_numeral t0")
    case True
    then have "\<not> is_bool t0" by (cases t0) (auto simp: is_bool_def)
    then show ?thesis using first by (simp add: simplify_def)
  next
    case False
    show ?thesis
    proof (cases "is_bound t")
      case None
      then show ?thesis using first s by (simp add: simplify_def)
    next
      case (Some p)
      obtain k b0 where p: "p = (k, b0)" by fastforce
      with Some m s False have nf: "\<not> is_full b0" and nk: "m_bound st k = None"
        by (auto simp: may_simplify_def split: if_splits)
      show ?thesis
      proof (cases "sign \<and> tight b0")
        case True
        then obtain nb where nb: "negate b0 = Some nb"
          using nf negate_None_iff [of b0] by auto
        then have "\<not> tight nb" by (rule negate_not_tight)
        then show ?thesis using first s Some p True nb nk
          by (simp add: simplify_def)
      next
        case nt: False
        then show ?thesis using first s Some p nf nk
          by (auto simp: simplify_def)
      qed
    qed
  qed
qed

text \<open>
  Claim C9. In every reachable state, when \<open>may_simplify\<close> returns \<open>false\<close> for a
  term, \<open>simplify\<close> on the same state and term returns no rewrite.
\<close>

theorem may_simplify_sound:
  assumes "reachable fatal st" "may_simplify st t = Inr False"
  shows "simplify st t = Inr None"
  using may_simplify_sound_aux [OF reachable_inv [OF assms(1)] assms(2)] .


theorem may_simplify_sound_witness:
  "reachable False (bv_bounds_simplifier False) \<and>
   may_simplify (bv_bounds_simplifier False) (BvUle (App ''x'' (BvSort 8) []) (BvNumeral 5 8))
     = Inr False \<and>
   simplify (bv_bounds_simplifier False) (BvUle (App ''x'' (BvSort 8) []) (BvNumeral 5 8))
     = Inr None"
proof -
  let ?e = "BvUle (App ''x'' (BvSort 8) []) (BvNumeral 5 8)"
  have r: "reachable False (bv_bounds_simplifier False)"
    by (rule reachable.constructed)
  have m: "may_simplify (bv_bounds_simplifier False) ?e = Inr False"
    by (simp add: may_simplify_def eval_defs)
  show ?thesis using r m may_simplify_sound [OF r m] by (intro conjI)
qed

text \<open>
  Claim C8, as amended. From a newly constructed simplifier, asserting \<open>\<not> (x \<le> 5)\<close>
  (unsigned, width 8) returns \<open>true\<close> and records \<open>[6, 255]\<close> for \<open>x\<close>. Then
  \<open>simplify\<close> declines the atom \<open>x \<le> 200\<close>, which the recorded bound does not
  imply, and rewrites the atom \<open>6 \<le> x\<close>, which it does imply, to \<open>true\<close>.
\<close>

theorem scenario_E_declines:
  "assert_expr fatal (bv_bounds_simplifier p) (NotE (BvUle (App ''x'' (BvSort 8) []) (BvNumeral 5 8))) False
     = Inr (True, \<lparr>m_propagate_eq = p,
          m_scopes = [\<lparr>undo_e = App ''x'' (BvSort 8) [], undo_b = None, undo_fresh = True\<rparr>],
          m_bound = [App ''x'' (BvSort 8) [] \<mapsto> \<lparr>l = 6, h = 255, sz = 8, tight = False\<rparr>]\<rparr>) \<and>
   simplify \<lparr>m_propagate_eq = p,
          m_scopes = [\<lparr>undo_e = App ''x'' (BvSort 8) [], undo_b = None, undo_fresh = True\<rparr>],
          m_bound = [App ''x'' (BvSort 8) [] \<mapsto> \<lparr>l = 6, h = 255, sz = 8, tight = False\<rparr>]\<rparr>
     (BvUle (App ''x'' (BvSort 8) []) (BvNumeral 200 8)) = Inr None \<and>
   simplify \<lparr>m_propagate_eq = p,
          m_scopes = [\<lparr>undo_e = App ''x'' (BvSort 8) [], undo_b = None, undo_fresh = True\<rparr>],
          m_bound = [App ''x'' (BvSort 8) [] \<mapsto> \<lparr>l = 6, h = 255, sz = 8, tight = False\<rparr>]\<rparr>
     (BvUle (BvNumeral 6 8) (App ''x'' (BvSort 8) [])) = Inr (Some TrueE)"
  by (simp add: simplify_def is_bool_def eval_defs)

theorem scenario_E_declines_witness:
  "simplify \<lparr>m_propagate_eq = False,
          m_scopes = [\<lparr>undo_e = App ''x'' (BvSort 8) [], undo_b = None, undo_fresh = True\<rparr>],
          m_bound = [App ''x'' (BvSort 8) [] \<mapsto> \<lparr>l = 6, h = 255, sz = 8, tight = False\<rparr>]\<rparr>
     (BvUle (App ''x'' (BvSort 8) []) (BvNumeral 200 8)) = Inr None"
  using scenario_E_declines [of False False] by (elim conjE)

text \<open>
  Claim C8 as stated fails: after the assertion of \<open>\<not> (x \<le> 5)\<close> has returned
  \<open>true\<close>, \<open>simplify\<close> does not rewrite \<open>x \<le> 200\<close> to \<open>true\<close>.
\<close>

theorem scenario_E_not_true:
  "\<not> isl (assert_expr False (bv_bounds_simplifier False)
       (NotE (BvUle (App ''x'' (BvSort 8) []) (BvNumeral 5 8))) False) \<and>
   fst (projr (assert_expr False (bv_bounds_simplifier False)
       (NotE (BvUle (App ''x'' (BvSort 8) []) (BvNumeral 5 8))) False)) \<and>
   simplify (snd (projr (assert_expr False (bv_bounds_simplifier False)
       (NotE (BvUle (App ''x'' (BvSort 8) []) (BvNumeral 5 8))) False)))
     (BvUle (App ''x'' (BvSort 8) []) (BvNumeral 200 8)) \<noteq> Inr (Some TrueE)"
  by (simp add: simplify_def is_bool_def eval_defs)


lemma assert_expr_conflict:
  assumes b: "is_bound t = Some (k, b0)" and s: "strip_not t0 sign0 = (t, sign)"
    and nb: "if sign then negate b0 = Some nb else nb = b0"
    and o: "m_bound st k = Some old" and e: "intersect old nb = None"
  shows "assert_expr fatal st t0 sign0 = Inr (False, st)"
  using assms unfolding assert_expr_def by (auto split: if_splits)

lemma assert_expr_no_bound:
  assumes "is_bound t = None" "strip_not t0 sign0 = (t, sign)"
  shows "assert_expr fatal st t0 sign0 = Inr (True, st)"
  using assms unfolding assert_expr_def by simp

lemma assert_expr_failure_iff:
  assumes i: "ctx_inv st" and ws: "well_sorted t0" and s: "strip_not t0 sign0 = (t, sign)"
  shows "(\<exists>st'. assert_expr fatal st t0 sign0 = Inr (False, st')) \<longleftrightarrow>
         (\<exists>k b0 nb old. is_bound t = Some (k, b0) \<and>
            (if sign then negate b0 = Some nb else nb = b0) \<and>
            m_bound st k = Some old \<and> (\<forall>v. \<not> (contains old v \<and> contains nb v)))"
    (is "?L \<longleftrightarrow> ?R")
proof
  note wt = strip_not_ws [OF s ws]
  assume ?L
  then obtain st' where "assert_expr fatal st t0 sign0 = Inr (False, st')" by blast
  from assert_expr_False [OF this s] obtain k b0 nb old where b: "is_bound t = Some (k, b0)"
    and nb: "\<not> sign \<and> nb = b0 \<or> sign \<and> negate b0 = Some nb \<or> sign \<and> negate b0 = None \<and> nb = b0"
    and o: "m_bound st k = Some old" and e: "intersect old nb = None"
    by blast
  have "\<not> (negate b0 = None \<and> nb = b0)"
    using e intersect_full_r [of b0 old] by (auto simp: negate_None_iff)
  with nb have nb': "if sign then negate b0 = Some nb else nb = b0" by auto
  have "entry_ok k old" "entry_ok k nb"
    using i o asserted_interval_entry [OF b wt nb] by (simp_all add: ctx_inv_def)
  then have "sz old = sz nb" "invariant old" "invariant nb" by (auto simp: entry_ok_def)
  from intersect_None_iff [OF this] e have "\<forall>v. \<not> (contains old v \<and> contains nb v)" by simp
  with b nb' o show ?R by blast
next
  note wt = strip_not_ws [OF s ws]
  assume ?R
  then obtain k b0 nb old where b: "is_bound t = Some (k, b0)"
    and nb: "if sign then negate b0 = Some nb else nb = b0"
    and o: "m_bound st k = Some old" and e: "\<forall>v. \<not> (contains old v \<and> contains nb v)"
    by blast
  from nb have "\<not> sign \<and> nb = b0 \<or> sign \<and> negate b0 = Some nb \<or> sign \<and> negate b0 = None \<and> nb = b0"
    by (auto split: if_splits)
  then have "entry_ok k old" "entry_ok k nb"
    using i o asserted_interval_entry [OF b wt] by (simp_all add: ctx_inv_def)
  then have "sz old = sz nb" "invariant old" "invariant nb" by (auto simp: entry_ok_def)
  from intersect_None_iff [OF this] e have "intersect old nb = None" by simp
  from assert_expr_conflict [OF b s nb o this] show ?L by blast
qed

lemma assert_expr_abort_iff:
  assumes ws: "well_sorted t0" and s: "strip_not t0 sign0 = (t, sign)"
  shows "(\<exists>x. assert_expr fatal st t0 sign0 = Inl x) \<longleftrightarrow>
         fatal \<and> sign \<and> (\<exists>k b0. is_bound t = Some (k, b0) \<and> is_full b0)"
    (is "?L \<longleftrightarrow> ?R")
proof
  assume ?L
  then obtain x where "assert_expr fatal st t0 sign0 = Inl x" by blast
  then obtain k b0 where f: "fatal" "sign" and b: "is_bound t = Some (k, b0)" "negate b0 = None"
    unfolding assert_expr_Inl [OF s] by blast
  then have "is_full b0" by (simp add: negate_None_iff)
  with f b(1) show ?R by blast
next
  assume ?R
  then obtain k b0 where f: "fatal" "sign" and b: "is_bound t = Some (k, b0)" "is_full b0"
    by blast
  from is_bound_entry [OF b(1) strip_not_ws [OF s ws]] b(2) have "negate b0 = None"
    by (simp add: negate_None_iff)
  with f b(1) have "assert_expr fatal st t0 sign0 = Inl VerifyFailed"
    unfolding assert_expr_Inl [OF s] by blast
  then show ?L by blast
qed

lemma intersect_with_full:
  assumes "is_full b0" "tight b0" "sz old = sz b0"
  shows "intersect old b0 = Some (if is_full old then b0 else old)"
    and "interval_eq old (if is_full old then b0 else old) \<longleftrightarrow> \<not> (is_full old \<and> \<not> tight old)"
  using assms unfolding intersect.simps [of old b0]
  by (auto simp: is_full_def interval_eq_def)

lemma assert_expr_ignored:
  assumes s: "strip_not t0 sign0 = (t, sign)" and sg: "sign" and nf: "\<not> fatal"
    and b: "is_bound t = Some (k, b0)" and f: "is_full b0" and tb: "tight b0"
    and w: "\<forall>old. m_bound st k = Some old \<longrightarrow> sz old = sz b0"
  shows "assert_expr fatal st t0 sign0 =
    (case m_bound st k of
       None \<Rightarrow> Inr (True, st
         \<lparr>m_bound := (m_bound st)(k \<mapsto> b0),
          m_scopes := m_scopes st @ [\<lparr>undo_e = k, undo_b = None, undo_fresh = True\<rparr>]\<rparr>)
     | Some old \<Rightarrow>
         if is_full old \<and> \<not> tight old
         then Inr (True, st
           \<lparr>m_scopes := m_scopes st @ [\<lparr>undo_e = k, undo_b = Some old, undo_fresh = False\<rparr>],
            m_bound := (m_bound st)(k \<mapsto> b0)\<rparr>)
         else Inr (True, st))"
proof (cases "m_bound st k")
  case None
  then show ?thesis using s sg nf b f tb unfolding assert_expr_def
    by (simp add: negate_None_iff [THEN iffD2])
next
  case (Some old)
  then have "sz old = sz b0" using w by simp
  note i = intersect_with_full [OF f tb this]
  have n: "negate b0 = None" using f tb by (simp add: negate_None_iff)
  show ?thesis using Some s sg nf b n i unfolding assert_expr_def
    by (auto split: if_splits)
qed

text \<open>
  Claim C4, as amended. In a reachable state, for a well-sorted term whose leading
  negations are stripped into the polarity:
  \<^item> \<open>assert_expr\<close> returns \<open>false\<close> exactly when a bound is extracted, the extracted
    interval (its negation under negated polarity) exists and shares no value with the
    interval already recorded for the same subterm;
  \<^item> it does not return exactly when a failed \<^verbatim>\<open>VERIFY\<close> is fatal, the polarity is
    negated and the extracted interval is the full one, whose negation is empty;
  \<^item> in every other case it returns \<open>true\<close>, in particular when no bound is extracted;
  \<^item> where a failed \<^verbatim>\<open>VERIFY\<close> is ignored, the polarity is negated and the extracted
    interval is the full one, the call goes on with that interval as it is: for a
    subterm with no recorded interval it records the full interval and pushes a scope
    record; it replaces a recorded interval that is full but not tight by it and pushes
    a scope record holding the old one; and it leaves every other state as it is.
\<close>

theorem assert_expr_outcome:
  assumes "reachable fatal st" "well_sorted t0" "strip_not t0 sign0 = (t, sign)"
  shows "((\<exists>st'. assert_expr fatal st t0 sign0 = Inr (False, st')) \<longleftrightarrow>
           (\<exists>k b0 nb old. is_bound t = Some (k, b0) \<and>
              (if sign then negate b0 = Some nb else nb = b0) \<and>
              m_bound st k = Some old \<and> (\<forall>v. \<not> (contains old v \<and> contains nb v)))) \<and>
         ((\<exists>x. assert_expr fatal st t0 sign0 = Inl x) \<longleftrightarrow>
           fatal \<and> sign \<and> (\<exists>k b0. is_bound t = Some (k, b0) \<and> is_full b0)) \<and>
         ((\<exists>st'. assert_expr fatal st t0 sign0 = Inr (True, st')) \<or>
          (\<exists>st'. assert_expr fatal st t0 sign0 = Inr (False, st')) \<or>
          (\<exists>x. assert_expr fatal st t0 sign0 = Inl x)) \<and>
         (is_bound t = None \<longrightarrow> assert_expr fatal st t0 sign0 = Inr (True, st)) \<and>
         (\<forall>k b0. \<not> fatal \<and> sign \<and> is_bound t = Some (k, b0) \<and> is_full b0 \<longrightarrow>
            assert_expr fatal st t0 sign0 =
              (case m_bound st k of
                 None \<Rightarrow> Inr (True, st
                   \<lparr>m_bound := (m_bound st)(k \<mapsto> b0),
                    m_scopes := m_scopes st @
                      [\<lparr>undo_e = k, undo_b = None, undo_fresh = True\<rparr>]\<rparr>)
               | Some old \<Rightarrow>
                   if is_full old \<and> \<not> tight old
                   then Inr (True, st
                     \<lparr>m_scopes := m_scopes st @
                        [\<lparr>undo_e = k, undo_b = Some old, undo_fresh = False\<rparr>],
                      m_bound := (m_bound st)(k \<mapsto> b0)\<rparr>)
                   else Inr (True, st)))"
proof -
  note inv = reachable_inv [OF assms(1)]
  have 1: "(\<exists>st'. assert_expr fatal st t0 sign0 = Inr (False, st')) \<longleftrightarrow>
           (\<exists>k b0 nb old. is_bound t = Some (k, b0) \<and>
              (if sign then negate b0 = Some nb else nb = b0) \<and>
              m_bound st k = Some old \<and> (\<forall>v. \<not> (contains old v \<and> contains nb v)))"
    by (rule assert_expr_failure_iff [OF inv assms(2,3)])
  have 2: "(\<exists>x. assert_expr fatal st t0 sign0 = Inl x) \<longleftrightarrow>
           fatal \<and> sign \<and> (\<exists>k b0. is_bound t = Some (k, b0) \<and> is_full b0)"
    by (rule assert_expr_abort_iff [OF assms(2,3)])
  have 3: "(\<exists>st'. assert_expr fatal st t0 sign0 = Inr (True, st')) \<or>
          (\<exists>st'. assert_expr fatal st t0 sign0 = Inr (False, st')) \<or>
          (\<exists>x. assert_expr fatal st t0 sign0 = Inl x)"
    by (cases "assert_expr fatal st t0 sign0") auto
  have 4: "is_bound t = None \<longrightarrow> assert_expr fatal st t0 sign0 = Inr (True, st)"
    using assert_expr_no_bound [OF _ assms(3)] by blast
  have 5: "assert_expr fatal st t0 sign0 =
              (case m_bound st k of
                 None \<Rightarrow> Inr (True, st
                   \<lparr>m_bound := (m_bound st)(k \<mapsto> b0),
                    m_scopes := m_scopes st @
                      [\<lparr>undo_e = k, undo_b = None, undo_fresh = True\<rparr>]\<rparr>)
               | Some old \<Rightarrow>
                   if is_full old \<and> \<not> tight old
                   then Inr (True, st
                     \<lparr>m_scopes := m_scopes st @
                        [\<lparr>undo_e = k, undo_b = Some old, undo_fresh = False\<rparr>],
                      m_bound := (m_bound st)(k \<mapsto> b0)\<rparr>)
                   else Inr (True, st))"
    if h: "\<not> fatal \<and> sign \<and> is_bound t = Some (k, b0) \<and> is_full b0" for k b0
  proof -
    from h have b: "is_bound t = Some (k, b0)" by simp
    from is_bound_entry [OF b strip_not_ws [OF assms(3,2)]]
    have e: "entry_ok k b0" "tight b0" by simp_all
    have "\<forall>old. m_bound st k = Some old \<longrightarrow> sz old = sz b0"
      using inv e(1) by (auto simp: ctx_inv_def entry_ok_def)
    with h e(2) show ?thesis by (intro assert_expr_ignored [OF assms(3)]) simp_all
  qed
  have 6: "\<forall>k b0. \<not> fatal \<and> sign \<and> is_bound t = Some (k, b0) \<and> is_full b0 \<longrightarrow>
            assert_expr fatal st t0 sign0 =
              (case m_bound st k of
                 None \<Rightarrow> Inr (True, st
                   \<lparr>m_bound := (m_bound st)(k \<mapsto> b0),
                    m_scopes := m_scopes st @
                      [\<lparr>undo_e = k, undo_b = None, undo_fresh = True\<rparr>]\<rparr>)
               | Some old \<Rightarrow>
                   if is_full old \<and> \<not> tight old
                   then Inr (True, st
                     \<lparr>m_scopes := m_scopes st @
                        [\<lparr>undo_e = k, undo_b = Some old, undo_fresh = False\<rparr>],
                      m_bound := (m_bound st)(k \<mapsto> b0)\<rparr>)
                   else Inr (True, st))"
    using 5 by blast
  show ?thesis using 1 2 3 4 6 by (intro conjI)
qed

text \<open>
  The scenario of the claim: after \<open>x \<le> 3\<close>, asserting \<open>5 \<le> x\<close> returns \<open>false\<close>.
\<close>

theorem assert_expr_outcome_witness:
  "reachable False
     \<lparr>m_propagate_eq = False,
      m_scopes = [\<lparr>undo_e = App ''x'' (BvSort 8) [], undo_b = None, undo_fresh = True\<rparr>],
      m_bound = [App ''x'' (BvSort 8) [] \<mapsto> \<lparr>l = 0, h = 3, sz = 8, tight = True\<rparr>]\<rparr> \<and>
   well_sorted (BvUle (BvNumeral 5 8) (App ''x'' (BvSort 8) [])) \<and>
   strip_not (BvUle (BvNumeral 5 8) (App ''x'' (BvSort 8) [])) False
     = (BvUle (BvNumeral 5 8) (App ''x'' (BvSort 8) []), False) \<and>
   (\<exists>st'. assert_expr False
      \<lparr>m_propagate_eq = False,
       m_scopes = [\<lparr>undo_e = App ''x'' (BvSort 8) [], undo_b = None, undo_fresh = True\<rparr>],
       m_bound = [App ''x'' (BvSort 8) [] \<mapsto> \<lparr>l = 0, h = 3, sz = 8, tight = True\<rparr>]\<rparr>
      (BvUle (BvNumeral 5 8) (App ''x'' (BvSort 8) [])) False = Inr (False, st'))"
proof -
  let ?x = "App ''x'' (BvSort 8) []"
  let ?st = "\<lparr>m_propagate_eq = False,
      m_scopes = [\<lparr>undo_e = ?x, undo_b = None, undo_fresh = True\<rparr>],
      m_bound = [?x \<mapsto> \<lparr>l = 0, h = 3, sz = 8, tight = True\<rparr>]\<rparr>"
  let ?t = "BvUle (BvNumeral 5 8) ?x"
  have "assert_expr False (bv_bounds_simplifier False) (BvUle ?x (BvNumeral 3 8)) False
          = Inr (True, ?st)"
    by (simp add: eval_defs)
  then have r: "reachable False ?st"
    by (rule reachable.asserted [OF reachable.constructed, rotated]) simp
  have ws: "well_sorted ?t" by simp
  have s: "strip_not ?t False = (?t, False)" by simp
  have b: "is_bound ?t = Some (?x, \<lparr>l = 5, h = 255, sz = 8, tight = True\<rparr>)"
    by (simp add: eval_defs)
  have e: "\<forall>v. \<not> (contains \<lparr>l = 0, h = 3, sz = 8, tight = True\<rparr> v \<and>
                    contains \<lparr>l = 5, h = 255, sz = 8, tight = True\<rparr> v)"
  proof (intro allI notI)
    fix v :: uint64
    assume "contains \<lparr>l = 0, h = 3, sz = 8, tight = True\<rparr> v \<and>
            contains \<lparr>l = 5, h = 255, sz = 8, tight = True\<rparr> v"
    then have "5 \<le> v" "v \<le> 3" by (simp_all add: contains_def)
    then have "(5 :: uint64) \<le> 3" by (rule order_trans)
    then show False by simp
  qed
  have "\<exists>k b0 nb old. is_bound ?t = Some (k, b0) \<and>
      (if False then negate b0 = Some nb else nb = b0) \<and>
      m_bound ?st k = Some old \<and> (\<forall>v. \<not> (contains old v \<and> contains nb v))"
    using b e by (intro exI [of _ ?x] exI [of _ "\<lparr>l = 5, h = 255, sz = 8, tight = True\<rparr>"]
        exI [of _ "\<lparr>l = 0, h = 3, sz = 8, tight = True\<rparr>"]) simp
  with assert_expr_outcome [OF r ws s]
  have f: "\<exists>st'. assert_expr False ?st ?t False = Inr (False, st')" by blast
  show ?thesis using r ws s f by (intro conjI)
qed

text \<open>
  Claim C4 as stated fails on the assertion of \<open>\<not> (x \<le> 255)\<close> at width 8, whose
  negated interval is empty. Where a failed \<^verbatim>\<open>VERIFY\<close> is fatal, the call on a new
  simplifier, which has no recorded interval, returns neither \<open>true\<close> nor \<open>false\<close>.
  Where it is ignored, the call returns \<open>true\<close>: on a new simplifier it records the
  full interval for \<open>x\<close> under a new scope, and after \<open>x \<le> 3\<close> has been recorded it
  leaves the state as it is, although no value is in \<open>[0,3]\<close> and in the empty
  negation.
\<close>

theorem assert_expr_verify_stops:
  "assert_expr True (bv_bounds_simplifier False)
     (NotE (BvUle (App ''x'' (BvSort 8) []) (BvNumeral 255 8))) False = Inl VerifyFailed \<and>
   assert_expr False (bv_bounds_simplifier False)
     (NotE (BvUle (App ''x'' (BvSort 8) []) (BvNumeral 255 8))) False
   = Inr (True,
     \<lparr>m_propagate_eq = False,
      m_scopes = [\<lparr>undo_e = App ''x'' (BvSort 8) [], undo_b = None, undo_fresh = True\<rparr>],
      m_bound = [App ''x'' (BvSort 8) [] \<mapsto> \<lparr>l = 0, h = 255, sz = 8, tight = True\<rparr>]\<rparr>) \<and>
   assert_expr False
     \<lparr>m_propagate_eq = False,
      m_scopes = [\<lparr>undo_e = App ''x'' (BvSort 8) [], undo_b = None, undo_fresh = True\<rparr>],
      m_bound = [App ''x'' (BvSort 8) [] \<mapsto> \<lparr>l = 0, h = 3, sz = 8, tight = True\<rparr>]\<rparr>
     (NotE (BvUle (App ''x'' (BvSort 8) []) (BvNumeral 255 8))) False
   = Inr (True,
     \<lparr>m_propagate_eq = False,
      m_scopes = [\<lparr>undo_e = App ''x'' (BvSort 8) [], undo_b = None, undo_fresh = True\<rparr>],
      m_bound = [App ''x'' (BvSort 8) [] \<mapsto> \<lparr>l = 0, h = 3, sz = 8, tight = True\<rparr>]\<rparr>)"
  by (simp add: eval_defs)

end
